theory Spec2Isabelle
  imports Main
begin

section \<open>Data model of the fetch scheduler\<close>

text \<open>
  Pointers to \<^verbatim>\<open>struct fetch\<close> are addresses; address 0 is the null pointer.
  cURL easy handles are numbers as well, 0 being "no handle".
\<close>

type_synonym ptr = nat

datatype fetch_msg =
  FETCH_TYPE | FETCH_DATA | FETCH_FINISHED | FETCH_ERROR | FETCH_REDIRECT | FETCH_AUTH

text \<open>
  The \<^verbatim>\<open>data\<close> argument of a callback is a C pointer; the model keeps where it points:
  the fetch's error buffer, a message-catalogue string, the captured Location, the realm,
  a MIME type, a chunk of body data, or null.
\<close>

datatype cb_data =
  NoData
  | ErrorBuffer string
  | Message string
  | LocationData string
  | RealmData "string option"
  | MimeType string
  | Chunk string

text \<open>
  What a client callback does with the scheduler before it returns: a sequence of calls
  of \<^verbatim>\<open>fetch_abort\<close> and \<^verbatim>\<open>fetch_start\<close>. A callback is a function of its four C
  arguments (msg, p, data, size).
\<close>

datatype call =
  CallAbort ptr
  | CallStart string "string option" "fetch_msg \<Rightarrow> nat \<Rightarrow> cb_data \<Rightarrow> nat \<Rightarrow> call list" nat bool

type_synonym callback_fn = "fetch_msg \<Rightarrow> nat \<Rightarrow> cb_data \<Rightarrow> nat \<Rightarrow> call list"

text \<open>
  \<^verbatim>\<open>struct fetch\<close>. The fields \<^verbatim>\<open>prev\<close> and \<^verbatim>\<open>next\<close> are \<open>prev_fetch\<close> and
  \<open>next_fetch\<close> here; \<open>headers\<close> tells whether the request header list is allocated.
\<close>

record fetch =
  curl_handle :: nat
  callback :: callback_fn
  had_headers :: bool
  in_callback :: bool
  aborting :: bool
  only_2xx :: bool
  url :: string
  referer :: "string option"
  error_buffer :: string
  p :: nat
  headers :: bool
  host :: "string option"
  location :: "string option"
  content_length :: nat
  realm :: "string option"
  queue_prev :: ptr
  queue_next :: ptr
  prev_fetch :: ptr
  next_fetch :: ptr

text \<open>
  The effects the scheduler has on its surroundings, in the order they happen: events
  delivered to a client callback (tagged with the fetch they belong to), calls into the
  transfer engine, and releases of fetch structures.
\<close>

datatype effect =
  Ev ptr fetch_msg nat cb_data nat
  | EasyInit nat
  | MultiAdd nat ptr
  | MultiRemove nat
  | EasyCleanup nat
  | Free ptr

text \<open>
  The globals of the module (\<^verbatim>\<open>fetch_active\<close>, \<^verbatim>\<open>fetch_list\<close>, \<^verbatim>\<open>curl_multi\<close>), the
  store of allocated fetch structures, the engine's CURLOPT_PRIVATE association, the
  handles whose transfer the engine has failed because the write callback consumed less
  than it was given (\<open>curl_failed\<close>), and the trace of effects. \<^verbatim>\<open>xcalloc\<close> and \<^verbatim>\<open>curl_easy_init\<close> hand out fresh numbers.
\<close>

record sched =
  heap :: "ptr \<Rightarrow> fetch option"
  next_ptr :: ptr
  fetch_list :: ptr
  fetch_active :: bool
  curl_multi :: "nat list"
  curl_private :: "nat \<Rightarrow> ptr"
  curl_failed :: "nat list"
  next_handle :: nat
  trace :: "effect list"

text \<open>
  Collaborators that are not part of the scheduler: \<^verbatim>\<open>url_host\<close>, \<^verbatim>\<open>curl_unescape\<close>,
  \<^verbatim>\<open>messages_get\<close>, \<^verbatim>\<open>fetch_filetype\<close>, and the compile-time switch WITH_AUTH.
\<close>

record env =
  url_host :: "string \<Rightarrow> string option"
  curl_unescape :: "string \<Rightarrow> string"
  messages_get :: "string \<Rightarrow> string"
  fetch_filetype :: "string \<Rightarrow> string"
  with_auth :: bool

text \<open>
  What C leaves undefined is a fault of the model: reading or writing through a null or
  released pointer, a failed assertion, and a list walk that never ends. The last fault is
  not one of the scheduler: it marks a script of engine behaviour that the engine cannot
  show (a callback for a handle that is not registered or whose transfer has failed).
\<close>

datatype fault = BadPointer ptr | AssertFailed | Diverges | NotEngineBehaviour

definition bnd :: "fault + 'a \<Rightarrow> ('a \<Rightarrow> fault + 'b) \<Rightarrow> fault + 'b" where
  "bnd m k = (case m of Inl e \<Rightarrow> Inl e | Inr x \<Rightarrow> k x)"

definition load :: "sched \<Rightarrow> ptr \<Rightarrow> fault + fetch" where
  "load s a = (case heap s a of None \<Rightarrow> Inl (BadPointer a) | Some x \<Rightarrow> Inr x)"

definition store :: "ptr \<Rightarrow> (fetch \<Rightarrow> fetch) \<Rightarrow> sched \<Rightarrow> fault + sched" where
  "store a g s = (case heap s a of None \<Rightarrow> Inl (BadPointer a)
                  | Some x \<Rightarrow> Inr (s\<lparr>heap := (heap s)(a \<mapsto> g x)\<rparr>))"

definition xfree :: "ptr \<Rightarrow> sched \<Rightarrow> fault + sched" where
  "xfree a s = (case heap s a of None \<Rightarrow> Inl (BadPointer a)
                | Some x \<Rightarrow> Inr (s\<lparr>heap := (heap s)(a := None), trace := trace s @ [Free a]\<rparr>))"

definition emit :: "effect \<Rightarrow> sched \<Rightarrow> sched" where
  "emit e s = s\<lparr>trace := trace s @ [e]\<rparr>"

definition tolower :: "char \<Rightarrow> char" where
  "tolower c = (let n = (of_char c :: nat) in if 65 \<le> n \<and> n \<le> 90 then char_of (n + 32) else c)"

definition strcasecmp_eq :: "string \<Rightarrow> string \<Rightarrow> bool" where
  "strcasecmp_eq a b = (map tolower a = map tolower b)"

definition init_sched :: sched where
  "init_sched = \<lparr>heap = Map.empty, next_ptr = 1, fetch_list = 0, fetch_active = False,
                 curl_multi = [], curl_private = (\<lambda>_. 0), curl_failed = [],
                 next_handle = 1, trace = []\<rparr>"

section \<open>The transfer engine, as far as the scheduler uses it\<close>

text \<open>
  \<^verbatim>\<open>curl_multi_add_handle\<close> and \<^verbatim>\<open>curl_multi_remove_handle\<close>, each followed in the source
  by an assertion on the returned code: adding a handle that is already registered, or
  removing one that is not, fails the assertion. Of the options set on an easy handle the
  model keeps CURLOPT_PRIVATE, which \<^verbatim>\<open>fetch_poll\<close> reads back.
\<close>

definition multi_add :: "nat \<Rightarrow> sched \<Rightarrow> fault + sched" where
  "multi_add h s =
     (if h \<in> set (curl_multi s) then Inl AssertFailed
      else Inr (emit (MultiAdd h (curl_private s h)) (s\<lparr>curl_multi := curl_multi s @ [h]\<rparr>)))"

definition multi_remove :: "nat \<Rightarrow> sched \<Rightarrow> fault + sched" where
  "multi_remove h s =
     (if h \<notin> set (curl_multi s) then Inl AssertFailed
      else Inr (emit (MultiRemove h)
             (s\<lparr>curl_multi := remove1 h (curl_multi s), curl_failed := removeAll h (curl_failed s)\<rparr>)))"

definition set_private :: "nat \<Rightarrow> ptr \<Rightarrow> sched \<Rightarrow> sched" where
  "set_private h f s = s\<lparr>curl_private := (curl_private s)(h := f)\<rparr>"

section \<open>fetch\_start\<close>

text \<open>
  The two list walks of \<^verbatim>\<open>fetch_start\<close>. The bound is the number of addresses handed out
  so far: a walk over distinct allocated structures is never longer, so a walk that
  exhausts it is in a cycle and the C loop does not end.
\<close>

fun find_host :: "nat \<Rightarrow> sched \<Rightarrow> ptr \<Rightarrow> string \<Rightarrow> fault + ptr" where
  "find_host 0 s host_fetch h = Inl Diverges"
| "find_host (Suc n) s host_fetch h =
     (if host_fetch = 0 then Inr 0
      else bnd (load s host_fetch) (\<lambda>x.
        if (case host x of None \<Rightarrow> True | Some h' \<Rightarrow> \<not> strcasecmp_eq h' h)
        then find_host n s (next_fetch x) h
        else Inr host_fetch))"

fun queue_end :: "nat \<Rightarrow> sched \<Rightarrow> ptr \<Rightarrow> fault + ptr" where
  "queue_end 0 s host_fetch = Inl Diverges"
| "queue_end (Suc n) s host_fetch =
     bnd (load s host_fetch) (\<lambda>x.
       if queue_next x \<noteq> 0 then queue_end n s (queue_next x) else Inr host_fetch)"

definition new_fetch :: "env \<Rightarrow> string \<Rightarrow> string option \<Rightarrow> callback_fn \<Rightarrow> nat \<Rightarrow> bool \<Rightarrow> fetch" where
  "new_fetch E u r cb pp o2 =
     \<lparr>curl_handle = 0, callback = cb, had_headers = False, in_callback = False,
      aborting = False, only_2xx = o2, url = u, referer = r, error_buffer = [],
      p = pp, headers = False, host = url_host E u, location = None, content_length = 0,
      realm = None, queue_prev = 0, queue_next = 0, prev_fetch = 0, next_fetch = 0\<rparr>"

text \<open>The tail of \<^verbatim>\<open>fetch_start\<close>, from \<^verbatim>\<open>fetch->next = fetch_list\<close> on.\<close>

definition start_active :: "sched \<Rightarrow> ptr \<Rightarrow> fault + (ptr \<times> sched)" where
  "start_active s fetch =
     bnd (store fetch (\<lambda>x. x\<lparr>next_fetch := fetch_list s\<rparr>) s) (\<lambda>s.
     bnd (if fetch_list s \<noteq> 0 then store (fetch_list s) (\<lambda>x. x\<lparr>prev_fetch := fetch\<rparr>) s
          else Inr s) (\<lambda>s.
     let s = s\<lparr>fetch_list := fetch, fetch_active := True\<rparr>;
         h = next_handle s;
         s = emit (EasyInit h) (s\<lparr>next_handle := Suc h\<rparr>)
     in if h = 0 then Inl AssertFailed
        else bnd (store fetch (\<lambda>x. x\<lparr>curl_handle := h, headers := True\<rparr>) s) (\<lambda>s.
             bnd (multi_add h (set_private h fetch s)) (\<lambda>s. Inr (fetch, s)))))"

definition fetch_start ::
  "env \<Rightarrow> sched \<Rightarrow> string \<Rightarrow> string option \<Rightarrow> callback_fn \<Rightarrow> nat \<Rightarrow> bool \<Rightarrow> fault + (ptr \<times> sched)" where
  "fetch_start E s0 u r cb pp o2 =
     (let fetch = next_ptr s0;
          s = s0\<lparr>heap := (heap s0)(fetch \<mapsto> new_fetch E u r cb pp o2), next_ptr := Suc fetch\<rparr>
      in case url_host E u of
           None \<Rightarrow> start_active s fetch
         | Some h \<Rightarrow>
             bnd (find_host (next_ptr s) s (fetch_list s) h) (\<lambda>host_fetch.
               if host_fetch \<noteq> 0 then
                 bnd (store fetch (\<lambda>x. x\<lparr>curl_handle := 0\<rparr>) s) (\<lambda>s.
                 bnd (queue_end (next_ptr s) s host_fetch) (\<lambda>host_fetch.
                 bnd (store fetch (\<lambda>x. x\<lparr>queue_prev := host_fetch\<rparr>) s) (\<lambda>s.
                 bnd (store host_fetch (\<lambda>x. x\<lparr>queue_next := fetch\<rparr>) s) (\<lambda>s.
                 Inr (fetch, s)))))
               else start_active s fetch))"

section \<open>fetch\_abort\<close>

text \<open>Removal from \<^verbatim>\<open>fetch_list\<close>; every field is read when the C statement reads it.\<close>

definition abort_unlink :: "ptr \<Rightarrow> sched \<Rightarrow> fault + sched" where
  "abort_unlink f s =
     bnd (load s f) (\<lambda>x.
     bnd (if prev_fetch x = 0 then Inr (s\<lparr>fetch_list := next_fetch x\<rparr>)
          else store (prev_fetch x) (\<lambda>y. y\<lparr>next_fetch := next_fetch x\<rparr>) s) (\<lambda>s.
     bnd (load s f) (\<lambda>x.
       if next_fetch x \<noteq> 0 then store (next_fetch x) (\<lambda>y. y\<lparr>prev_fetch := prev_fetch x\<rparr>) s
       else Inr s)))"

definition abort_remove_handle :: "ptr \<Rightarrow> sched \<Rightarrow> fault + sched" where
  "abort_remove_handle f s =
     bnd (load s f) (\<lambda>x. if curl_handle x \<noteq> 0 then multi_remove (curl_handle x) s else Inr s)"

text \<open>The branch that starts the queued fetch on the handle of \<open>f\<close>.\<close>

definition abort_promote :: "ptr \<Rightarrow> sched \<Rightarrow> fault + sched" where
  "abort_promote f s =
     bnd (load s f) (\<lambda>x.
     let fetch = queue_next x in
     bnd (store fetch (\<lambda>y. y\<lparr>prev_fetch := 0, next_fetch := fetch_list s\<rparr>) s) (\<lambda>s.
     bnd (if fetch_list s \<noteq> 0 then store (fetch_list s) (\<lambda>y. y\<lparr>prev_fetch := fetch\<rparr>) s
          else Inr s) (\<lambda>s.
     bnd (store fetch (\<lambda>y. y\<lparr>queue_prev := 0\<rparr>) (s\<lparr>fetch_list := fetch\<rparr>)) (\<lambda>s.
     bnd (load s f) (\<lambda>x.
     bnd (store fetch (\<lambda>y. y\<lparr>curl_handle := curl_handle x\<rparr>) s) (\<lambda>s.
     multi_add (curl_handle x) (set_private (curl_handle x) fetch s)))))))"

text \<open>The other branch: release the handle and splice \<open>f\<close> out of its host queue.\<close>

definition abort_release :: "ptr \<Rightarrow> sched \<Rightarrow> fault + sched" where
  "abort_release f s =
     bnd (load s f) (\<lambda>x.
     let s = (if curl_handle x \<noteq> 0 then emit (EasyCleanup (curl_handle x)) s else s) in
     bnd (if queue_prev x \<noteq> 0 then store (queue_prev x) (\<lambda>y. y\<lparr>queue_next := queue_next x\<rparr>) s
          else Inr s) (\<lambda>s.
     bnd (load s f) (\<lambda>x.
       if queue_next x \<noteq> 0 then store (queue_next x) (\<lambda>y. y\<lparr>queue_prev := queue_prev x\<rparr>) s
       else Inr s)))"

definition fetch_abort :: "sched \<Rightarrow> ptr \<Rightarrow> fault + sched" where
  "fetch_abort s f =
     (if f = 0 then Inl AssertFailed
      else bnd (load s f) (\<lambda>x.
        if in_callback x then store f (\<lambda>y. y\<lparr>aborting := True\<rparr>) s
        else
          bnd (abort_unlink f s) (\<lambda>s.
          bnd (abort_remove_handle f s) (\<lambda>s.
          bnd (load s f) (\<lambda>x.
          bnd (if curl_handle x \<noteq> 0 \<and> queue_next x \<noteq> 0 then abort_promote f s
               else abort_release f s) (\<lambda>s.
          xfree f s))))))"

section \<open>Callbacks into the client\<close>

fun do_call :: "env \<Rightarrow> call \<Rightarrow> sched \<Rightarrow> fault + sched" where
  "do_call E (CallAbort f) s = fetch_abort s f"
| "do_call E (CallStart u r cb pp o2) s = bnd (fetch_start E s u r cb pp o2) (\<lambda>(f, s). Inr s)"

fun do_calls :: "env \<Rightarrow> call list \<Rightarrow> sched \<Rightarrow> fault + sched" where
  "do_calls E [] s = Inr s"
| "do_calls E (c # cs) s = bnd (do_call E c s) (do_calls E cs)"

text \<open>A call \<^verbatim>\<open>callback(msg, p, data, size)\<close> on behalf of fetch \<open>f\<close>.\<close>

definition invoke ::
  "env \<Rightarrow> ptr \<Rightarrow> callback_fn \<Rightarrow> fetch_msg \<Rightarrow> nat \<Rightarrow> cb_data \<Rightarrow> nat \<Rightarrow> sched \<Rightarrow> fault + sched" where
  "invoke E f cb msg pp d n s = do_calls E (cb msg pp d n) (emit (Ev f msg pp d n) s)"

section \<open>fetch\_process\_headers, fetch\_curl\_data\<close>

text \<open>What \<^verbatim>\<open>curl_easy_getinfo\<close> reports for a handle: the HTTP code and the content type.\<close>

record info =
  http_code :: int
  content_type :: "string option"

definition mime_type :: "env \<Rightarrow> info \<Rightarrow> string \<Rightarrow> string" where
  "mime_type E i u =
     (case content_type i of
        Some t \<Rightarrow> t
      | None \<Rightarrow>
          if take 8 u = ''file:///'' then fetch_filetype E (curl_unescape E (drop 8 u))
          else if take 6 u = ''file:/'' then fetch_filetype E (curl_unescape E (drop 6 u))
          else ''text/html'')"

definition fetch_process_headers :: "env \<Rightarrow> info \<Rightarrow> ptr \<Rightarrow> sched \<Rightarrow> fault + (bool \<times> sched)" where
  "fetch_process_headers E i f s =
     bnd (store f (\<lambda>y. y\<lparr>had_headers := True\<rparr>) s) (\<lambda>s.
     bnd (load s f) (\<lambda>x.
       if curl_handle x = 0 then Inl AssertFailed
       else if 300 \<le> http_code i \<and> http_code i < 400 \<and> location x \<noteq> None then
         bnd (store f (\<lambda>y. y\<lparr>location := map_option (curl_unescape E) (location y)\<rparr>) s) (\<lambda>s.
         bnd (load s f) (\<lambda>x.
         bnd (invoke E f (callback x) FETCH_REDIRECT (p x) (LocationData (the (location x))) 0 s)
           (\<lambda>s. Inr (True, s))))
       else if with_auth E \<and> http_code i = 401 then
         bnd (invoke E f (callback x) FETCH_AUTH (p x) (RealmData (realm x)) 0 s)
           (\<lambda>s. Inr (True, s))
       else if only_2xx x \<and> take 4 (url x) = ''http'' \<and> (http_code i < 200 \<or> 299 < http_code i) then
         bnd (invoke E f (callback x) FETCH_ERROR (p x) (Message (messages_get E ''Not2xx'')) 0 s)
           (\<lambda>s. Inr (True, s))
       else
         bnd (invoke E f (callback x) FETCH_TYPE (p x) (MimeType (mime_type E i (url x)))
                (content_length x) s) (\<lambda>s.
         bnd (load s f) (\<lambda>x. Inr (aborting x, s)))))"

text \<open>The value returned is the number of bytes reported as consumed.\<close>

definition fetch_curl_data :: "env \<Rightarrow> info \<Rightarrow> string \<Rightarrow> ptr \<Rightarrow> sched \<Rightarrow> fault + (nat \<times> sched)" where
  "fetch_curl_data E i d f s =
     bnd (store f (\<lambda>y. y\<lparr>in_callback := True\<rparr>) s) (\<lambda>s.
     bnd (load s f) (\<lambda>x.
     bnd (if \<not> had_headers x then fetch_process_headers E i f s else Inr (False, s)) (\<lambda>(ab, s).
       if ab then bnd (store f (\<lambda>y. y\<lparr>in_callback := False\<rparr>) s) (\<lambda>s. Inr (0, s))
       else
         bnd (load s f) (\<lambda>x.
         bnd (invoke E f (callback x) FETCH_DATA (p x) (Chunk d) (length d) s) (\<lambda>s.
         bnd (store f (\<lambda>y. y\<lparr>in_callback := False\<rparr>) s) (\<lambda>s. Inr (length d, s)))))))"

section \<open>fetch\_curl\_header\<close>

text \<open>
  A header line is the string of \<open>size\<close> characters that the engine passes, followed by
  a 0 byte, which ends the scan of a Content-Length line that is blank after the name.
  Where the C code would leave the buffer (a Location line that is blank after the name
  or whose value is stripped to nothing, a realm copy longer than the line), the model
  faults.
\<close>

definition is_blank :: "char \<Rightarrow> bool" where
  "is_blank c = (c = CHR '' '' \<or> c = CHR 0x09)"

definition is_trail :: "char \<Rightarrow> bool" where
  "is_trail c = (c = CHR '' '' \<or> c = CHR 0x09 \<or> c = CHR 0x0D \<or> c = CHR 0x0A)"

definition is_digit :: "char \<Rightarrow> bool" where
  "is_digit c = (48 \<le> (of_char c :: nat) \<and> (of_char c :: nat) \<le> 57)"

definition strncasecmp_eq :: "string \<Rightarrow> string \<Rightarrow> nat \<Rightarrow> bool" where
  "strncasecmp_eq a b n = (map tolower (take n a) = map tolower (take n b))"

text \<open>
  \<^verbatim>\<open>atol\<close> is only called on a string that starts with a digit. A value that does not
  fit a \<^verbatim>\<open>long\<close> (64 bits here) is reported as \<^verbatim>\<open>LONG_MAX\<close>, as \<^verbatim>\<open>strtol\<close> does.
\<close>

definition LONG_MAX :: int where
  "LONG_MAX = 2 ^ 63 - 1"

definition atol :: "string \<Rightarrow> nat" where
  "atol d = nat (min LONG_MAX
     (foldl (\<lambda>acc c. 10 * acc + ((of_char c :: int) - 48)) 0 (takeWhile is_digit d)))"

definition fetch_curl_header :: "env \<Rightarrow> string \<Rightarrow> ptr \<Rightarrow> sched \<Rightarrow> fault + (nat \<times> sched)" where
  "fetch_curl_header E d f s =
     (let size = length d in
      if 12 < size \<and> strncasecmp_eq d ''Location:'' 9 then
        (let v = dropWhile is_blank (drop 9 d);
             w = rev (dropWhile is_trail (rev v))
         in if v = [] \<or> w = [] then Inl (BadPointer 0)
            else bnd (store f (\<lambda>y. y\<lparr>location := Some w\<rparr>) s) (\<lambda>s. Inr (size, s)))
      else if 15 < size \<and> strncasecmp_eq d ''Content-Length:'' 15 then
        (let v = dropWhile is_blank (drop 15 d)
         in if v \<noteq> [] \<and> is_digit (hd v)
            then bnd (store f (\<lambda>y. y\<lparr>content_length := atol v\<rparr>) s) (\<lambda>s. Inr (size, s))
            else Inr (size, s))
      else if with_auth E \<and> 16 < size \<and> strncasecmp_eq d ''WWW-Authenticate'' 16 then
        (let i = 16 + length (takeWhile (\<lambda>c. c \<noteq> CHR ''='') (drop 16 d))
         in if size < i + 5 then Inl (BadPointer 0)
            else bnd (store f (\<lambda>y. y\<lparr>realm := Some (take (size - i - 5) (drop (i + 2) d))\<rparr>) s)
                   (\<lambda>s. Inr (size, s)))
      else Inr (size, s))"

section \<open>fetch\_poll\<close>

text \<open>
  What the engine does during one \<^verbatim>\<open>fetch_poll\<close> is an input of the model: the callbacks
  it makes from \<^verbatim>\<open>curl_multi_perform\<close>, then the completion messages that
  \<^verbatim>\<open>curl_multi_info_read\<close> returns. A completion carries the result code, what
  \<^verbatim>\<open>curl_easy_getinfo\<close> reports, and the text the engine left in the error buffer.
\<close>

datatype curl_code = CURLE_OK | CURLE_WRITE_ERROR | CURLE_OTHER nat

datatype engine_act = EHeader nat string | EData nat info string

record curl_msg =
  easy_handle :: nat
  result :: curl_code
  msg_info :: info
  error_text :: string

text \<open>
  The engine calls back only for a registered handle whose transfer has not failed. A
  write callback that consumes less than it was given fails the transfer, which then
  completes with CURLE_WRITE_ERROR; the engine may pass the write callback no bytes at
  all, and then the answer 0 is not short.
\<close>

definition engine_act :: "env \<Rightarrow> engine_act \<Rightarrow> sched \<Rightarrow> fault + sched" where
  "engine_act E a s =
     (case a of
        EHeader h d \<Rightarrow>
          if h \<notin> set (curl_multi s) \<or> h \<in> set (curl_failed s) then Inl NotEngineBehaviour
          else bnd (fetch_curl_header E d (curl_private s h) s) (\<lambda>(n, s). Inr s)
      | EData h i d \<Rightarrow>
          if h \<notin> set (curl_multi s) \<or> h \<in> set (curl_failed s) then Inl NotEngineBehaviour
          else bnd (fetch_curl_data E i d (curl_private s h) s) (\<lambda>(n, s).
                 Inr (if n = length d \<or> h \<notin> set (curl_multi s) then s
                      else s\<lparr>curl_failed := h # curl_failed s\<rparr>)))"

fun perform :: "env \<Rightarrow> engine_act list \<Rightarrow> sched \<Rightarrow> fault + sched" where
  "perform E [] s = Inr s"
| "perform E (a # as) s = bnd (engine_act E a s) (perform E as)"

text \<open>
  The body of \<^verbatim>\<open>case CURLMSG_DONE\<close> for one message, in two parts: the statements up to
  the comment \<^verbatim>\<open>clean up fetch\<close>, which decide \<^verbatim>\<open>finished\<close>, and the whole. The engine
  has written its diagnostic text to the error buffer of a failed transfer.
\<close>

definition poll_resolve :: "env \<Rightarrow> curl_msg \<Rightarrow> ptr \<Rightarrow> sched \<Rightarrow> fault + (bool \<times> sched)" where
  "poll_resolve E m f s =
     bnd (load s f) (\<lambda>x.
       if result m = CURLE_OK then
         (if \<not> had_headers x
          then bnd (fetch_process_headers E (msg_info m) f s) (\<lambda>(ab, s). Inr (\<not> ab, s))
          else Inr (True, s))
       else if result m \<noteq> CURLE_WRITE_ERROR then
         bnd (invoke E f (callback x) FETCH_ERROR (p x) (ErrorBuffer (error_buffer x)) 0 s)
           (\<lambda>s. Inr (False, s))
       else Inr (False, s))"

definition poll_done :: "env \<Rightarrow> curl_msg \<Rightarrow> sched \<Rightarrow> fault + sched" where
  "poll_done E m s =
     (if easy_handle m \<notin> set (curl_multi s)
         \<or> (easy_handle m \<in> set (curl_failed s) \<and> result m \<noteq> CURLE_WRITE_ERROR)
      then Inl NotEngineBehaviour
      else
        let f = curl_private s (easy_handle m) in
        bnd (if result m = CURLE_OK then Inr s
             else store f (\<lambda>y. y\<lparr>error_buffer := error_text m\<rparr>) s) (\<lambda>s.
        bnd (load s f) (\<lambda>x.
        let cb = callback x; pp = p x in
        bnd (poll_resolve E m f s) (\<lambda>(finished, s).
        bnd (fetch_abort s f) (\<lambda>s.
        if finished then invoke E f cb FETCH_FINISHED pp NoData 0 s else Inr s)))))"

fun drain :: "env \<Rightarrow> curl_msg list \<Rightarrow> sched \<Rightarrow> fault + sched" where
  "drain E [] s = Inr s"
| "drain E (m # ms) s = bnd (poll_done E m s) (drain E ms)"

definition fetch_poll :: "env \<Rightarrow> engine_act list \<Rightarrow> curl_msg list \<Rightarrow> sched \<Rightarrow> fault + sched" where
  "fetch_poll E acts msgs s =
     bnd (perform E acts s) (\<lambda>s.
     bnd (drain E msgs s) (\<lambda>s.
     Inr (if fetch_list s = 0 then s\<lparr>fetch_active := False\<rparr> else s)))"

section \<open>Predicates used in the proofs\<close>

text \<open>
  An update of a fetch is benign when it leaves the transfer handle and the four links
  alone. A predicate on scheduler states is stable when no step of the scheduler other
  than the last statement of \<^verbatim>\<open>fetch_poll\<close> can falsify it.
\<close>

definition benign :: "(fetch \<Rightarrow> fetch) \<Rightarrow> bool" where
  "benign g = (\<forall>y. curl_handle (g y) = curl_handle y \<and> queue_prev (g y) = queue_prev y \<and>
      queue_next (g y) = queue_next y \<and> prev_fetch (g y) = prev_fetch y \<and>
      next_fetch (g y) = next_fetch y)"

definition stable :: "env \<Rightarrow> (sched \<Rightarrow> bool) \<Rightarrow> bool" where
  "stable E P = (
     (\<forall>e s. P s \<longrightarrow> P (emit e s)) \<and>
     (\<forall>a g s s'. benign g \<longrightarrow> P s \<longrightarrow> store a g s = Inr s' \<longrightarrow> P s') \<and>
     (\<forall>h s. P s \<longrightarrow> P (s\<lparr>curl_failed := h # curl_failed s\<rparr>)) \<and>
     (\<forall>s f s'. P s \<longrightarrow> fetch_abort s f = Inr s' \<longrightarrow> P s') \<and>
     (\<forall>s u r cb pp o2 g s'. P s \<longrightarrow> fetch_start E s u r cb pp o2 = Inr (g, s') \<longrightarrow> P s'))"

text \<open>The same for the calls a client can make from a callback only.\<close>

definition call_stable :: "env \<Rightarrow> (sched \<Rightarrow> bool) \<Rightarrow> bool" where
  "call_stable E P = (
     (\<forall>s f s'. P s \<longrightarrow> fetch_abort s f = Inr s' \<longrightarrow> P s') \<and>
     (\<forall>s u r cb pp o2 g s'. P s \<longrightarrow> fetch_start E s u r cb pp o2 = Inr (g, s') \<longrightarrow> P s'))"

text \<open>The events among the effects of a trace.\<close>

fun is_ev :: "effect \<Rightarrow> bool" where
  "is_ev (Ev f m pp d n) = True"
| "is_ev e = False"

definition events :: "effect list \<Rightarrow> effect list" where
  "events es = filter is_ev es"

section \<open>Concrete scenarios\<close>

text \<open>
  A small environment for running the scheduler on concrete inputs: \<open>url_host\<close> takes the
  authority of an \<^verbatim>\<open>http://\<close> URL and fails on anything else, unescaping is the identity,
  and authentication support is compiled out.
\<close>

definition env0 :: env where
  "env0 = \<lparr>url_host = (\<lambda>u. if take 7 u = ''http://''
                          then Some (takeWhile (\<lambda>c. c \<noteq> CHR ''/'') (drop 7 u)) else None),
           curl_unescape = (\<lambda>u. u), messages_get = (\<lambda>k. k),
           fetch_filetype = (\<lambda>u. ''text/plain''), with_auth = False\<rparr>"

text \<open>A client whose callback does nothing.\<close>

definition cb_none :: callback_fn where
  "cb_none = (\<lambda>m pp d n. [])"

definition is_ok :: "fault + 'a \<Rightarrow> bool" where
  "is_ok r = (case r of Inr x \<Rightarrow> True | Inl e \<Rightarrow> False)"

definition after :: "fault + sched \<Rightarrow> sched" where
  "after r = (case r of Inr s \<Rightarrow> s | Inl e \<Rightarrow> init_sched)"

definition started :: "fault + (ptr \<times> sched) \<Rightarrow> fault + sched" where
  "started r = bnd r (\<lambda>(f, s). Inr s)"

text \<open>One fetch of \<^verbatim>\<open>http://a/\<close> started on the initial state: fetch 1 on handle 1.\<close>

definition s_one :: sched where
  "s_one = after (started (fetch_start env0 init_sched ''http://a/'' None cb_none 7 False))"

text \<open>
  A second fetch for the same host, written \<^verbatim>\<open>A\<close>, started after the first: fetch 2, queued
  behind fetch 1.
\<close>

definition s_two :: sched where
  "s_two = after (started (fetch_start env0 s_one ''http://A/x'' None cb_none 8 False))"

text \<open>A client that aborts fetch \<open>f\<close> from its callback when it is told \<open>m\<close>.\<close>

definition cb_abort_on :: "fetch_msg \<Rightarrow> ptr \<Rightarrow> callback_fn" where
  "cb_abort_on m f = (\<lambda>m' pp d n. if m' = m then [CallAbort f] else [])"

text \<open>One fetch whose client aborts it as soon as it is told of an error.\<close>

definition s_self :: sched where
  "s_self = after (started (fetch_start env0 init_sched ''http://a/'' None
                     (cb_abort_on FETCH_ERROR 1) 7 False))"

definition msg_failed :: curl_msg where
  "msg_failed = \<lparr>easy_handle = 1, result = CURLE_OTHER 7,
                  msg_info = \<lparr>http_code = 0, content_type = None\<rparr>,
                  error_text = ''connection refused''\<rparr>"

text \<open>The fields of a fetch that the host queues and the re-entrancy guard depend on.\<close>

definition qview :: "fetch \<Rightarrow> nat \<times> ptr \<times> ptr \<times> bool" where
  "qview y = (curl_handle y, queue_prev y, queue_next y, in_callback y)"

text \<open>The state of the engine and the trace, apart from the store and the registry head.\<close>

definition ctl :: "sched \<Rightarrow> bool \<times> nat list \<times> (nat \<Rightarrow> ptr) \<times> nat list \<times> nat \<times> ptr \<times> effect list" where
  "ctl s = (fetch_active s, curl_multi s, curl_private s, curl_failed s, next_handle s,
            next_ptr s, trace s)"


text \<open>
  The event that \<^verbatim>\<open>fetch_process_headers\<close> delivers for a fetch with the fields of \<open>x\<close>, as
  message, data and size: the four branches of the function, in its order.
\<close>

definition header_event :: "env \<Rightarrow> info \<Rightarrow> fetch \<Rightarrow> fetch_msg \<times> cb_data \<times> nat" where
  "header_event E i x =
     (if 300 \<le> http_code i \<and> http_code i < 400 \<and> location x \<noteq> None
      then (FETCH_REDIRECT, LocationData (curl_unescape E (the (location x))), 0)
      else if with_auth E \<and> http_code i = 401 then (FETCH_AUTH, RealmData (realm x), 0)
      else if only_2xx x \<and> take 4 (url x) = ''http'' \<and> (http_code i < 200 \<or> 299 < http_code i)
      then (FETCH_ERROR, Message (messages_get E ''Not2xx''), 0)
      else (FETCH_TYPE, MimeType (mime_type E i (url x)), content_length x))"

text \<open>Handle 1 completes with the write error that a rejected transfer produces.\<close>

definition msg_rejected :: curl_msg where
  "msg_rejected = \<lparr>easy_handle = 1, result = CURLE_WRITE_ERROR,
                    msg_info = \<lparr>http_code = 302, content_type = None\<rparr>,
                    error_text = ''Failed writing body''\<rparr>"

section \<open>The invariant of the host queues\<close>

text \<open>
  I1 is the invariant stated at the head of the source file: a fetch has a curl handle
  exactly when it has no predecessor in its host queue.
\<close>

definition I1 :: "sched \<Rightarrow> bool" where
  "I1 s = (\<forall>f x. heap s f = Some x \<longrightarrow> (queue_prev x = 0) = (curl_handle x \<noteq> 0))"

text \<open>
  What holds together with I1 between calls: the allocator has not yet handed out the
  addresses from \<open>next_ptr\<close> on, nothing lives at the null address, and a fetch that names
  a successor in its host queue is named by that successor as its predecessor.
\<close>

definition sched_inv :: "sched \<Rightarrow> bool" where
  "sched_inv s = (0 < next_ptr s \<and> heap s 0 = None \<and>
     (\<forall>f. next_ptr s \<le> f \<longrightarrow> heap s f = None) \<and>
     (\<forall>f x. heap s f = Some x \<longrightarrow>
        ((queue_prev x = 0) = (curl_handle x \<noteq> 0)) \<and>
        (queue_next x \<noteq> 0 \<longrightarrow> (\<exists>y. heap s (queue_next x) = Some y \<and> queue_prev y = f))))"

text \<open>
  The calls a client makes from outside any callback, and a run of such calls. The
  states between the calls of a run are the observation points.
\<close>

datatype op =
  OpStart string "string option" callback_fn nat bool
  | OpAbort ptr
  | OpPoll "engine_act list" "curl_msg list"

fun step :: "env \<Rightarrow> op \<Rightarrow> sched \<Rightarrow> fault + sched" where
  "step E (OpStart u r cb pp o2) s = bnd (fetch_start E s u r cb pp o2) (\<lambda>(f, s). Inr s)"
| "step E (OpAbort f) s = fetch_abort s f"
| "step E (OpPoll acts msgs) s = fetch_poll E acts msgs s"

fun run :: "env \<Rightarrow> op list \<Rightarrow> sched \<Rightarrow> fault + sched" where
  "run E [] s = Inr s"
| "run E (c # cs) s = bnd (step E c s) (run E cs)"

text \<open>The state \<open>s_one\<close> as the end of a run from the initial state.\<close>

definition s_one_run :: sched where
  "s_one_run = after (run env0 [OpStart ''http://a/'' None cb_none 7 False] init_sched)"

text \<open>The two starts that lead to \<open>s_two\<close>, as a run from the initial state.\<close>

definition ops_two :: "op list" where
  "ops_two = [OpStart ''http://a/'' None cb_none 7 False,
              OpStart ''http://A/x'' None cb_none 8 False]"

section \<open>The registry and the host queues as lists\<close>

text \<open>
  The list of fetches reached from \<open>a\<close> by following the link \<open>nx\<close> up to the null
  pointer; \<open>None\<close> when the walk leaves the store or does not reach null within the bound.
  The registry is the walk from \<^verbatim>\<open>fetch_list\<close> along \<^verbatim>\<open>next\<close>, the host queue of a fetch
  the walk from it along \<^verbatim>\<open>queue_next\<close>.
\<close>

fun chain :: "nat \<Rightarrow> (fetch \<Rightarrow> ptr) \<Rightarrow> sched \<Rightarrow> ptr \<Rightarrow> ptr list option" where
  "chain 0 nx s a = (if a = 0 then Some [] else None)"
| "chain (Suc n) nx s a =
     (if a = 0 then Some []
      else case heap s a of None \<Rightarrow> None
           | Some x \<Rightarrow> map_option (\<lambda>rest. a # rest) (chain n nx s (nx x)))"





section \<open>The events of one fetch\<close>

fun is_ev_of :: "ptr \<Rightarrow> effect \<Rightarrow> bool" where
  "is_ev_of f (Ev g m pp d n) = (g = f)"
| "is_ev_of f e = False"

definition evs_of :: "ptr \<Rightarrow> effect list \<Rightarrow> effect list" where
  "evs_of f tr = filter (is_ev_of f) tr"

fun is_redirect :: "effect \<Rightarrow> bool" where
  "is_redirect (Ev g m pp d n) = (m = FETCH_REDIRECT)"
| "is_redirect e = False"

definition redirected :: "ptr \<Rightarrow> effect list \<Rightarrow> bool" where
  "redirected f tr = (\<exists>e \<in> set (evs_of f tr). is_redirect e)"

text \<open>
  What holds of the engine and of the events between the steps of the dispatcher, and,
  apart from the fetch \<open>c\<close> whose callback is running, inside a callback: the registered
  handles are distinct and not 0, each belongs to the fetch that the engine associates
  with it; a fetch that is not allocated, not through status resolution or without a
  handle has had no event, and no fetch is marked as being in its callback. With \<open>z\<close>,
  which needs an engine that never passes the write callback an empty chunk, also: a
  fetch that has been told of a redirect has had no other event, and the engine has
  failed the transfer of every registered handle associated with it.
\<close>

definition proto_inv :: "bool \<Rightarrow> ptr \<Rightarrow> sched \<Rightarrow> bool" where
  "proto_inv z c s = (sched_inv s \<and> distinct (curl_multi s) \<and> 0 \<notin> set (curl_multi s) \<and>
     (\<forall>h \<in> set (curl_multi s). \<exists>x. heap s (curl_private s h) = Some x \<and> curl_handle x = h) \<and>
     (\<forall>f. f = 0 \<or> next_ptr s \<le> f \<longrightarrow> evs_of f (trace s) = []) \<and>
     (\<forall>f x. heap s f = Some x \<longrightarrow> f \<noteq> c \<longrightarrow>
        \<not> in_callback x \<and>
        (\<not> had_headers x \<or> curl_handle x = 0 \<longrightarrow> evs_of f (trace s) = []) \<and>
        (z \<and> redirected f (trace s) \<longrightarrow>
           (\<forall>h \<in> set (curl_multi s). curl_private s h = f \<longrightarrow> h \<in> set (curl_failed s)))) \<and>
     (\<forall>f. f \<noteq> c \<longrightarrow> z \<and> redirected f (trace s) \<longrightarrow> length (evs_of f (trace s)) = 1))"

text \<open>The fields of a fetch that the protocol invariant depends on.\<close>

definition pview :: "fetch \<Rightarrow> nat \<times> bool \<times> bool" where
  "pview y = (curl_handle y, in_callback y, had_headers y)"









section \<open>Basic facts about the result type and the store\<close>

lemma bnd_simps [simp]: "bnd (Inr x) k = k x" "bnd (Inl e) k = Inl e"
  by (simp_all add: bnd_def)

lemma bndE: "bnd m k = Inr y \<Longrightarrow> (\<And>x. m = Inr x \<Longrightarrow> k x = Inr y \<Longrightarrow> P) \<Longrightarrow> P"
  by (cases m) simp_all

lemma loadD: "load s a = Inr x \<Longrightarrow> heap s a = Some x"
  by (simp add: load_def split: option.splits)

lemma storeD: "store a g s = Inr s' \<Longrightarrow> \<exists>x. heap s a = Some x \<and> s' = s\<lparr>heap := (heap s)(a \<mapsto> g x)\<rparr>"
  by (auto simp: store_def split: option.splits)

lemma store_active: "store a g s = Inr s' \<Longrightarrow> fetch_active s' = fetch_active s"
  by (auto dest: storeD)

lemma abort_unlink_active: "abort_unlink f s = Inr s' \<Longrightarrow> fetch_active s' = fetch_active s"
  unfolding abort_unlink_def
  by (elim bndE) (auto split: if_splits dest!: store_active)


lemma xfreeD: "xfree a s = Inr s' \<Longrightarrow> \<exists>x. heap s a = Some x \<and> s' = s\<lparr>heap := (heap s)(a := None), trace := trace s @ [Free a]\<rparr>"
  by (auto simp: xfree_def split: option.splits)

lemma multi_addD: "multi_add h s = Inr s' \<Longrightarrow> h \<notin> set (curl_multi s) \<and> s' = emit (MultiAdd h (curl_private s h)) (s\<lparr>curl_multi := curl_multi s @ [h]\<rparr>)"
  by (auto simp: multi_add_def split: if_splits)

lemma multi_removeD: "multi_remove h s = Inr s' \<Longrightarrow> h \<in> set (curl_multi s) \<and> s' = emit (MultiRemove h)
             (s\<lparr>curl_multi := remove1 h (curl_multi s), curl_failed := removeAll h (curl_failed s)\<rparr>)"
  by (auto simp: multi_remove_def split: if_splits)

lemma xfree_active: "xfree a s = Inr s' \<Longrightarrow> fetch_active s' = fetch_active s"
  by (auto dest: xfreeD)

lemma multi_add_active: "multi_add h s = Inr s' \<Longrightarrow> fetch_active s' = fetch_active s"
  by (auto dest: multi_addD simp: emit_def)

lemma multi_remove_active: "multi_remove h s = Inr s' \<Longrightarrow> fetch_active s' = fetch_active s"
  by (auto dest: multi_removeD simp: emit_def)

lemma emit_active [simp]: "fetch_active (emit e s) = fetch_active s"
  by (simp add: emit_def)

lemma set_private_active [simp]: "fetch_active (set_private h f s) = fetch_active s"
  by (simp add: set_private_def)

lemma abort_remove_handle_active: "abort_remove_handle f s = Inr s' \<Longrightarrow> fetch_active s' = fetch_active s"
  unfolding abort_remove_handle_def
  by (elim bndE) (auto split: if_splits dest!: multi_remove_active)

lemma abort_promote_active: "abort_promote f s = Inr s' \<Longrightarrow> fetch_active s' = fetch_active s"
  unfolding abort_promote_def Let_def
  by (elim bndE) (auto split: if_splits dest!: store_active multi_add_active)

lemma abort_release_active: "abort_release f s = Inr s' \<Longrightarrow> fetch_active s' = fetch_active s"
  unfolding abort_release_def Let_def
  by (elim bndE) (auto split: if_splits dest!: store_active)

lemma fetch_abort_active: "fetch_abort s f = Inr s' \<Longrightarrow> fetch_active s' = fetch_active s"
  unfolding fetch_abort_def
  apply (simp split: if_splits)
  apply (elim bndE)
  apply (simp split: if_splits)
   apply (auto dest!: store_active)[1]
  apply (elim bndE)
  apply (auto split: if_splits dest!: abort_unlink_active abort_remove_handle_active abort_promote_active abort_release_active xfree_active)
  done

lemma start_active_active: "start_active s fetch = Inr (g, s') \<Longrightarrow> fetch_active s'"
  unfolding start_active_def Let_def
  by (elim bndE) (auto split: if_splits elim!: bndE dest!: store_active multi_add_active)

lemma fetch_start_active: "fetch_start E s u r cb pp o2 = Inr (g, s') \<Longrightarrow> fetch_active s \<Longrightarrow> fetch_active s'"
  unfolding fetch_start_def Let_def
  by (auto split: option.splits if_splits elim!: bndE dest!: store_active start_active_active)


lemma stable_emit: "stable E P \<Longrightarrow> P s \<Longrightarrow> P (emit e s)"
proof -
  assume st: "stable E P" and p: "P s"
  from st have "\<forall>e s. P s \<longrightarrow> P (emit e s)" unfolding stable_def by (elim conjE)
  with p show ?thesis by blast
qed

lemma stable_store: "store a g s = Inr s' \<Longrightarrow> stable E P \<Longrightarrow> P s \<Longrightarrow> benign g \<Longrightarrow> P s'"
proof -
  assume a: "store a g s = Inr s'" "P s" "benign g" and st: "stable E P"
  from st have "\<forall>a g s s'. benign g \<longrightarrow> P s \<longrightarrow> store a g s = Inr s' \<longrightarrow> P s'"
    unfolding stable_def by (elim conjE)
  with a show "P s'" by blast
qed

lemma stable_failed: "stable E P \<Longrightarrow> P s \<Longrightarrow> P (s\<lparr>curl_failed := h # curl_failed s\<rparr>)"
proof -
  assume st: "stable E P" and p: "P s"
  from st have "\<forall>h s. P s \<longrightarrow> P (s\<lparr>curl_failed := h # curl_failed s\<rparr>)"
    unfolding stable_def by (elim conjE)
  with p show ?thesis by blast
qed

lemma stable_abort: "fetch_abort s f = Inr s' \<Longrightarrow> stable E P \<Longrightarrow> P s \<Longrightarrow> P s'"
proof -
  assume a: "fetch_abort s f = Inr s'" "P s" and st: "stable E P"
  from st have "\<forall>s f s'. P s \<longrightarrow> fetch_abort s f = Inr s' \<longrightarrow> P s'"
    unfolding stable_def by (elim conjE)
  with a show "P s'" by blast
qed

lemma stable_start: "fetch_start E s u r cb pp o2 = Inr (g, s') \<Longrightarrow> stable E P \<Longrightarrow> P s \<Longrightarrow> P s'"
proof -
  assume a: "fetch_start E s u r cb pp o2 = Inr (g, s')" "P s" and st: "stable E P"
  from st have "\<forall>s u r cb pp o2 g s'. P s \<longrightarrow> fetch_start E s u r cb pp o2 = Inr (g, s') \<longrightarrow> P s'"
    unfolding stable_def by (elim conjE)
  with a show "P s'" by blast
qed

lemma stable_do_call: "do_call E c s = Inr s' \<Longrightarrow> stable E P \<Longrightarrow> P s \<Longrightarrow> P s'"
  by (cases c) (auto elim!: bndE dest: stable_abort stable_start)

lemma stable_do_calls: "do_calls E cs s = Inr s' \<Longrightarrow> stable E P \<Longrightarrow> P s \<Longrightarrow> P s'"
  by (induction cs arbitrary: s) (auto elim!: bndE dest: stable_do_call)

lemma stable_invoke: "invoke E f cb m pp d n s = Inr s' \<Longrightarrow> stable E P \<Longrightarrow> P s \<Longrightarrow> P s'"
  unfolding invoke_def by (blast intro: stable_emit dest: stable_do_calls)

lemma benign_simps [simp]:
  "benign (\<lambda>y. y\<lparr>had_headers := b\<rparr>)" "benign (\<lambda>y. y\<lparr>in_callback := b\<rparr>)"
  "benign (\<lambda>y. y\<lparr>aborting := b\<rparr>)" "benign (\<lambda>y. y\<lparr>location := l y\<rparr>)"
  "benign (\<lambda>y. y\<lparr>content_length := n\<rparr>)" "benign (\<lambda>y. y\<lparr>realm := r\<rparr>)"
  "benign (\<lambda>y. y\<lparr>error_buffer := e\<rparr>)"
  by (simp_all add: benign_def)

lemma stable_process_headers:
  "fetch_process_headers E i f s = Inr (b, s') \<Longrightarrow> stable E P \<Longrightarrow> P s \<Longrightarrow> P s'"
  unfolding fetch_process_headers_def
  apply (elim bndE)
  apply (drule (2) stable_store, simp)
  apply (simp split: if_splits)
     apply (elim bndE, drule (2) stable_store, simp, drule (2) stable_invoke, simp)
    apply (elim bndE, drule (2) stable_invoke, simp)
   apply (elim bndE, drule (2) stable_invoke, simp)
  apply (elim bndE, drule (2) stable_invoke, simp)
  done

lemma stable_curl_data:
  "fetch_curl_data E i d f s = Inr (n, s') \<Longrightarrow> stable E P \<Longrightarrow> P s \<Longrightarrow> P s'"
  unfolding fetch_curl_data_def
  apply (elim bndE)
  apply (drule (2) stable_store, simp)
  apply (clarsimp split: if_splits)
     apply (elim bndE | drule (2) stable_store, simp | drule (2) stable_invoke | drule (2) stable_process_headers | simp)+
  done

lemma stable_curl_header:
  "fetch_curl_header E d f s = Inr (n, s') \<Longrightarrow> stable E P \<Longrightarrow> P s \<Longrightarrow> P s'"
  unfolding fetch_curl_header_def Let_def
  apply (simp split: if_splits)
  apply (elim bndE | drule (2) stable_store, simp | simp)+
  done

lemma stable_engine_act:
  "engine_act E a s = Inr s' \<Longrightarrow> stable E P \<Longrightarrow> P s \<Longrightarrow> P s'"
  unfolding engine_act_def
  apply (cases a)
   apply (clarsimp split: if_splits)
   apply (elim bndE, clarsimp, drule (2) stable_curl_header, simp)
  apply (clarsimp split: if_splits)
  apply (elim bndE, clarsimp split: if_splits)
   apply (drule (2) stable_curl_data, blast)
  apply (drule (2) stable_curl_data, erule (1) stable_failed)
  done

lemma stable_perform: "perform E as s = Inr s' \<Longrightarrow> stable E P \<Longrightarrow> P s \<Longrightarrow> P s'"
  by (induction as arbitrary: s) (auto elim!: bndE dest: stable_engine_act)

lemma stable_poll_resolve:
  "poll_resolve E m f s = Inr (b, s') \<Longrightarrow> stable E P \<Longrightarrow> P s \<Longrightarrow> P s'"
  unfolding poll_resolve_def
  apply (elim bndE)
  apply (clarsimp split: if_splits)
  apply (elim bndE | drule (2) stable_invoke | drule (2) stable_process_headers | clarsimp split: if_splits)+
  done

lemma stable_poll_done: "poll_done E m s = Inr s' \<Longrightarrow> stable E P \<Longrightarrow> P s \<Longrightarrow> P s'"
  unfolding poll_done_def Let_def
  apply (simp split: if_splits)
  apply (elim bndE)
  apply (clarsimp split: if_splits)
  apply (elim bndE | drule (2) stable_store, simp | drule (2) stable_invoke | drule (2) stable_poll_resolve | drule (2) stable_abort | clarsimp split: if_splits)+
  done

lemma stable_drain: "drain E ms s = Inr s' \<Longrightarrow> stable E P \<Longrightarrow> P s \<Longrightarrow> P s'"
  by (induction ms arbitrary: s) (auto elim!: bndE dest: stable_poll_done)

section \<open>What fetch\_abort does to the store, the engine and the trace\<close>

lemma abort_unlink_frame:
  "abort_unlink f s = Inr s' \<Longrightarrow>
     ctl s' = ctl s \<and> (\<forall>b. map_option qview (heap s' b) = map_option qview (heap s b))"
  unfolding abort_unlink_def
  by (elim bndE) (auto split: if_splits dest!: storeD loadD simp: ctl_def qview_def)




lemma fetch_abort_steps:
  assumes a: "fetch_abort s f = Inr s'" and x: "heap s f = Some x" and nc: "\<not> in_callback x"
  obtains sa sb xb sc where
    "abort_unlink f s = Inr sa" "abort_remove_handle f sa = Inr sb" "heap sb f = Some xb"
    "(if curl_handle xb \<noteq> 0 \<and> queue_next xb \<noteq> 0 then abort_promote f sb else abort_release f sb) = Inr sc"
    "xfree f sc = Inr s'"
proof -
  from a x nc have "bnd (abort_unlink f s) (\<lambda>s.
          bnd (abort_remove_handle f s) (\<lambda>s.
          bnd (load s f) (\<lambda>x.
          bnd (if curl_handle x \<noteq> 0 \<and> queue_next x \<noteq> 0 then abort_promote f s
               else abort_release f s) (\<lambda>s.
          xfree f s)))) = Inr s'"
    by (simp add: fetch_abort_def load_def split: if_splits)
  then show thesis
    by (elim bndE) (drule loadD, rule that)
qed




lemma store_trace: "store a g s = Inr s' \<Longrightarrow> trace s' = trace s"
  by (auto dest: storeD)









lemma is_ok_after: "is_ok r \<Longrightarrow> r = Inr (after r)"
  by (cases r) (simp_all add: is_ok_def after_def)

section \<open>The outstanding flag\<close>

lemma stable_active: "stable E fetch_active"
  unfolding stable_def
  by (auto simp: emit_def dest: store_active fetch_abort_active fetch_start_active)

lemma fetch_poll_active:
  "fetch_poll E acts msgs s = Inr s' \<Longrightarrow> fetch_active s \<Longrightarrow> fetch_active s' = (fetch_list s' \<noteq> 0)"
  unfolding fetch_poll_def
  apply (elim bndE)
  apply (drule stable_perform[OF _ stable_active], assumption)
  apply (drule stable_drain[OF _ stable_active], assumption)
  apply (auto split: if_splits)
  done

text \<open>
  Claim C10. \<^verbatim>\<open>fetch_abort\<close> leaves \<^verbatim>\<open>fetch_active\<close> as it is; \<^verbatim>\<open>fetch_start\<close> never clears
  it; a \<^verbatim>\<open>fetch_poll\<close> entered with the flag set leaves it set exactly when \<^verbatim>\<open>fetch_list\<close>
  is not empty at its end. So the flag is still true after the last fetch has been
  aborted, and only a later \<^verbatim>\<open>fetch_poll\<close> that finds the list empty clears it.
\<close>

theorem fetch_active_cleared_only_by_poll:
  "(fetch_abort s f = Inr s1 \<longrightarrow> fetch_active s1 = fetch_active s) \<and>
   (fetch_start E s u r cb pp o2 = Inr (g, s2) \<longrightarrow> fetch_active s \<longrightarrow> fetch_active s2) \<and>
   (fetch_poll E acts msgs s = Inr s3 \<longrightarrow> fetch_active s \<longrightarrow> fetch_active s3 = (fetch_list s3 \<noteq> 0))"
  using fetch_abort_active fetch_start_active fetch_poll_active by blast

theorem fetch_active_cleared_only_by_poll_witness:
  "fetch_active s_one \<and>
   is_ok (fetch_abort s_one 1) \<and>
   fetch_active (after (fetch_abort s_one 1)) \<and>
   fetch_list (after (fetch_abort s_one 1)) = 0 \<and>
   is_ok (fetch_start env0 s_one ''http://b/'' None cb_none 8 False) \<and>
   fetch_active (after (started (fetch_start env0 s_one ''http://b/'' None cb_none 8 False))) \<and>
   is_ok (fetch_poll env0 [] [] s_one) \<and>
   fetch_active (after (fetch_poll env0 [] [] s_one)) \<and>
   is_ok (fetch_poll env0 [] [] (after (fetch_abort s_one 1))) \<and>
   \<not> fetch_active (after (fetch_poll env0 [] [] (after (fetch_abort s_one 1))))"
proof -
  let ?a = "fetch_abort s_one 1"
  let ?b = "fetch_start env0 s_one ''http://b/'' None cb_none 8 False"
  let ?c = "fetch_poll env0 [] [] s_one"
  let ?d = "fetch_poll env0 [] [] (after ?a)"
  have act: "fetch_active s_one" by code_simp
  have oka: "is_ok ?a" by code_simp
  have okb: "is_ok ?b" by code_simp
  have okc: "is_ok ?c" by code_simp
  have okd: "is_ok ?d" by code_simp
  have l1: "fetch_list (after ?a) = 0" by code_simp
  have l2: "fetch_list (after ?c) \<noteq> 0" by code_simp
  have l3: "fetch_list (after ?d) = 0" by code_simp
  obtain g s2 where eb: "?b = Inr (g, s2)" using okb by (cases ?b) (auto simp: is_ok_def)
  then have s2: "after (started ?b) = s2" by (simp add: started_def after_def)
  note t1 = fetch_active_cleared_only_by_poll
    [of s_one 1 "after ?a" env0 "''http://b/''" None cb_none 8 False g s2 "[]" "[]" "after ?c"]
  note t2 = fetch_active_cleared_only_by_poll
    [of "after ?a" 1 "after ?a" env0 "''http://b/''" None cb_none 8 False g s2 "[]" "[]" "after ?d"]
  from t1 is_ok_after[OF oka] is_ok_after[OF okc] eb act l2
  have r1: "fetch_active (after ?a)" "fetch_active s2" "fetch_active (after ?c)" by auto
  from t2 is_ok_after[OF okd] r1(1) l3 have r2: "\<not> fetch_active (after ?d)" by auto
  show ?thesis using act oka okb okc okd l1 r1 r2 s2 by simp
qed

section \<open>Starting a fetch for a URL without a host\<close>

text \<open>
  Claim C5 (the code departs from it). \<^verbatim>\<open>fetch_start\<close> never returns 0: for a URL from
  which \<^verbatim>\<open>url_host\<close> extracts nothing it skips the host search and goes on as for a new
  host. On the initial state and the URL \<^verbatim>\<open>blah\<close> it returns fetch 1, which it has put at
  the head of \<^verbatim>\<open>fetch_list\<close> and registered with the engine on handle 1, and it has set
  \<^verbatim>\<open>fetch_active\<close>.
\<close>

theorem fetch_start_without_host_starts_fetch:
  "url_host env0 ''blah'' = None \<and>
   (case fetch_start env0 init_sched ''blah'' None cb_none 7 False of
      Inl e \<Rightarrow> False
    | Inr (f, s) \<Rightarrow> f = 1 \<and> fetch_list s = 1 \<and> fetch_active s \<and> curl_multi s = [1] \<and>
        map_option curl_handle (heap s 1) = Some 1 \<and>
        trace s = [EasyInit 1, MultiAdd 1 1])"
  by code_simp

section \<open>Aborting a queued fetch\<close>

text \<open>
  Claim C9 (the code departs from it). In \<open>s_two\<close> fetch 1 is transferring and fetch 2 is
  queued behind it, with \<^verbatim>\<open>prev\<close> and \<^verbatim>\<open>next\<close> null as \<^verbatim>\<open>fetch_start\<close> left them. Aborting
  fetch 2 takes the branch \<^verbatim>\<open>f->prev == 0\<close> of the list removal and stores \<^verbatim>\<open>f->next\<close>, null,
  in \<^verbatim>\<open>fetch_list\<close>: the registry is empty afterwards although fetch 1 is still
  registered with the engine on handle 1.
\<close>

theorem abort_queued_empties_fetch_list:
  "fetch_list s_two = 1 \<and>
   map_option (\<lambda>x. (curl_handle x, queue_prev x, queue_next x)) (heap s_two 1) = Some (1, 0, 2) \<and>
   map_option (\<lambda>x. (curl_handle x, queue_prev x, queue_next x)) (heap s_two 2) = Some (0, 1, 0) \<and>
   is_ok (fetch_abort s_two 2) \<and>
   fetch_list (after (fetch_abort s_two 2)) = 0 \<and>
   curl_multi (after (fetch_abort s_two 2)) = [1] \<and>
   map_option (\<lambda>x. (curl_handle x, queue_prev x, queue_next x))
     (heap (after (fetch_abort s_two 2)) 1) = Some (1, 0, 0)"
  by code_simp

section \<open>Aborting from the callback of an event that fetch\_poll delivers itself\<close>

text \<open>
  Claim C1 (the code departs from it). Only \<^verbatim>\<open>fetch_curl_data\<close> sets \<^verbatim>\<open>in_callback\<close>; the
  FETCH_ERROR callback that \<^verbatim>\<open>fetch_poll\<close> makes for a failed transfer runs with the flag
  clear. A client that answers it with \<^verbatim>\<open>fetch_abort\<close> on the same fetch has the fetch
  released while its callback is running, and the \<^verbatim>\<open>fetch_abort\<close> that \<^verbatim>\<open>fetch_poll\<close> makes
  next reads released memory. With a client that does nothing the same poll is fine.
\<close>

theorem abort_in_error_callback_frees_fetch:
  "map_option in_callback (heap s_self 1) = Some False \<and>
   trace (after (invoke env0 1 (cb_abort_on FETCH_ERROR 1) FETCH_ERROR 7
                  (ErrorBuffer ''connection refused'') 0 s_self))
     = [EasyInit 1, MultiAdd 1 1, Ev 1 FETCH_ERROR 7 (ErrorBuffer ''connection refused'') 0,
        MultiRemove 1, EasyCleanup 1, Free 1] \<and>
   \<not> is_ok (fetch_poll env0 [] [msg_failed] s_self) \<and>
   is_ok (fetch_poll env0 [] [msg_failed] s_one)"
  by code_simp

section \<open>Aborting a released fetch\<close>

lemma is_none_eq: "Option.is_none x \<Longrightarrow> x = None"
  by (cases x) simp_all

text \<open>
  Claim C8, as the code has it. \<^verbatim>\<open>fetch_abort\<close> keeps no record of released fetches and
  starts by reading \<^verbatim>\<open>f->in_callback\<close>: called on a pointer whose structure has been
  released it reads released memory, and it returns no state.
\<close>

theorem fetch_abort_released_faults:
  "heap s f = None \<Longrightarrow> fetch_abort s f = Inl (if f = 0 then AssertFailed else BadPointer f)"
  by (simp add: fetch_abort_def load_def)

theorem fetch_abort_released_faults_witness:
  "Option.is_none (heap (after (fetch_abort s_one 1)) 1) \<and>
   fetch_abort (after (fetch_abort s_one 1)) 1 = Inl (BadPointer 1)"
proof -
  have n: "Option.is_none (heap (after (fetch_abort s_one 1)) 1)" by code_simp
  from fetch_abort_released_faults[OF is_none_eq[OF n]] n show ?thesis by simp
qed

theorem second_abort_not_noop:
  "is_ok (fetch_abort s_one 1) \<and> \<not> is_ok (fetch_abort (after (fetch_abort s_one 1)) 1)"
  by code_simp

section \<open>Completion: cleanup before FETCH\_FINISHED\<close>

lemma poll_resolve_True: "poll_resolve E m f s = Inr (True, s0) \<Longrightarrow> result m = CURLE_OK"
  unfolding poll_resolve_def
  by (elim bndE) (auto split: if_splits elim!: bndE)


lemma not_none_the: "\<not> Option.is_none x \<Longrightarrow> x = Some (the x)"
  by (cases x) simp_all



section \<open>The events of a callback, of status resolution and of a completion\<close>

lemma events_simps [simp]:
  "events [] = []" "events (a @ b) = events a @ events b"
  "events (e # es) = (if is_ev e then e # events es else events es)"
  by (simp_all add: events_def)

lemma cs_do_call: "do_call E c s = Inr s' \<Longrightarrow> call_stable E P \<Longrightarrow> P s \<Longrightarrow> P s'"
proof (cases c)
  case (CallAbort f)
  assume a: "do_call E c s = Inr s'" "call_stable E P" "P s"
  then have "\<forall>s f s'. P s \<longrightarrow> fetch_abort s f = Inr s' \<longrightarrow> P s'"
    unfolding call_stable_def by (elim conjE)
  with a CallAbort show ?thesis by auto
next
  case (CallStart u r cb pp o2)
  assume a: "do_call E c s = Inr s'" "call_stable E P" "P s"
  then have "\<forall>s u r cb pp o2 g s'. P s \<longrightarrow> fetch_start E s u r cb pp o2 = Inr (g, s') \<longrightarrow> P s'"
    unfolding call_stable_def by (elim conjE)
  with a CallStart show ?thesis by (auto elim!: bndE)
qed

lemma cs_do_calls: "do_calls E cs s = Inr s' \<Longrightarrow> call_stable E P \<Longrightarrow> P s \<Longrightarrow> P s'"
  by (induction cs arbitrary: s) (auto elim!: bndE dest: cs_do_call)

lemma abort_release_events: "abort_release f s = Inr s' \<Longrightarrow> events (trace s') = events (trace s)"
  unfolding abort_release_def Let_def
  by (elim bndE) (auto split: if_splits dest!: store_trace simp: emit_def)

lemma abort_promote_events: "abort_promote f s = Inr s' \<Longrightarrow> events (trace s') = events (trace s)"
  unfolding abort_promote_def Let_def
  by (elim bndE) (auto split: if_splits dest!: store_trace multi_addD simp: emit_def set_private_def)

lemma abort_remove_handle_events: "abort_remove_handle f s = Inr s' \<Longrightarrow> events (trace s') = events (trace s)"
  unfolding abort_remove_handle_def
  by (elim bndE) (auto split: if_splits dest!: multi_removeD simp: emit_def)

lemma fetch_abort_events: "fetch_abort s f = Inr s' \<Longrightarrow> events (trace s') = events (trace s)"
proof (cases "heap s f")
  case None
  assume "fetch_abort s f = Inr s'"
  with None show ?thesis by (simp add: fetch_abort_def load_def split: if_splits)
next
  case (Some x)
  assume a: "fetch_abort s f = Inr s'"
  show ?thesis
  proof (cases "in_callback x")
    case True
    with a Some show ?thesis
      by (auto simp: fetch_abort_def load_def split: if_splits dest!: store_trace)
  next
    case False
    from a Some False obtain sa sb xb sc where
      u: "abort_unlink f s = Inr sa" and r: "abort_remove_handle f sa = Inr sb"
      and xb: "heap sb f = Some xb"
      and br: "(if curl_handle xb \<noteq> 0 \<and> queue_next xb \<noteq> 0 then abort_promote f sb else abort_release f sb) = Inr sc"
      and fr: "xfree f sc = Inr s'"
      by (rule fetch_abort_steps)
    from abort_unlink_frame[OF u] have 1: "trace sa = trace s" by (simp add: ctl_def)
    note 2 = abort_remove_handle_events[OF r]
    from br have 3: "events (trace sc) = events (trace sb)"
      by (auto split: if_splits dest: abort_promote_events abort_release_events)
    from xfreeD[OF fr] have 4: "trace s' = trace sc @ [Free f]" by auto
    show ?thesis using 1 2 3 4 by simp
  qed
qed

lemma start_active_events: "start_active s fetch = Inr (g, s') \<Longrightarrow> events (trace s') = events (trace s)"
  unfolding start_active_def Let_def
  by (elim bndE) (auto split: if_splits elim!: bndE dest!: store_trace multi_addD simp: emit_def set_private_def)

lemma fetch_start_events: "fetch_start E s u r cb pp o2 = Inr (g, s') \<Longrightarrow> events (trace s') = events (trace s)"
  unfolding fetch_start_def Let_def
  by (auto split: option.splits if_splits elim!: bndE dest!: store_trace start_active_events)

lemma call_stable_events: "call_stable E (\<lambda>t. events (trace t) = evs)"
  unfolding call_stable_def
  by (auto dest!: fetch_abort_events fetch_start_events)

lemma invoke_events:
  assumes "invoke E f cb m pp d n s = Inr s'"
  shows "events (trace s') = events (trace s) @ [Ev f m pp d n]"
proof -
  from assms have "do_calls E (cb m pp d n) (emit (Ev f m pp d n) s) = Inr s'" by (simp add: invoke_def)
  from cs_do_calls[OF this call_stable_events[of E "events (trace s) @ [Ev f m pp d n]"]]
  show ?thesis by (simp add: emit_def)
qed


lemma process_headers_events:
  assumes r: "fetch_process_headers E i f s = Inr (b, s')" and x: "heap s f = Some x"
  shows "events (trace s') = events (trace s) @
           [Ev f (fst (header_event E i x)) (p x) (fst (snd (header_event E i x)))
              (snd (snd (header_event E i x)))] \<and>
         (fst (header_event E i x) \<noteq> FETCH_TYPE \<longrightarrow> b)"
proof -
  let ?s1 = "s\<lparr>heap := (heap s)(f \<mapsto> x\<lparr>had_headers := True\<rparr>)\<rparr>"
  let ?x1 = "x\<lparr>had_headers := True\<rparr>"
  from r x have k: "(if curl_handle ?x1 = 0 then Inl AssertFailed
       else if 300 \<le> http_code i \<and> http_code i < 400 \<and> location ?x1 \<noteq> None then
         bnd (store f (\<lambda>y. y\<lparr>location := map_option (curl_unescape E) (location y)\<rparr>) ?s1) (\<lambda>s.
         bnd (load s f) (\<lambda>x.
         bnd (invoke E f (callback x) FETCH_REDIRECT (p x) (LocationData (the (location x))) 0 s)
           (\<lambda>s. Inr (True, s))))
       else if with_auth E \<and> http_code i = 401 then
         bnd (invoke E f (callback ?x1) FETCH_AUTH (p ?x1) (RealmData (realm ?x1)) 0 ?s1)
           (\<lambda>s. Inr (True, s))
       else if only_2xx ?x1 \<and> take 4 (url ?x1) = ''http'' \<and> (http_code i < 200 \<or> 299 < http_code i) then
         bnd (invoke E f (callback ?x1) FETCH_ERROR (p ?x1) (Message (messages_get E ''Not2xx'')) 0 ?s1)
           (\<lambda>s. Inr (True, s))
       else
         bnd (invoke E f (callback ?x1) FETCH_TYPE (p ?x1) (MimeType (mime_type E i (url ?x1)))
                (content_length ?x1) ?s1) (\<lambda>s.
         bnd (load s f) (\<lambda>x. Inr (aborting x, s)))) = Inr (b, s')"
    by (simp add: fetch_process_headers_def store_def load_def)
  have t1: "trace ?s1 = trace s" by simp
  show ?thesis
  proof (cases "300 \<le> http_code i \<and> http_code i < 400 \<and> location x \<noteq> None")
    case True
    with k obtain l where l: "location x = Some l" by auto
    let ?s2 = "?s1\<lparr>heap := (heap ?s1)(f \<mapsto> ?x1\<lparr>location := Some (curl_unescape E l)\<rparr>)\<rparr>"
    from k True l have "bnd (invoke E f (callback x) FETCH_REDIRECT (p x) (LocationData (curl_unescape E l)) 0 ?s2)
           (\<lambda>s. Inr (True, s)) = Inr (b, s')"
      by (simp add: store_def load_def split: if_splits)
    then have "invoke E f (callback x) FETCH_REDIRECT (p x) (LocationData (curl_unescape E l)) 0 ?s2 = Inr s'" and b
      by (auto elim!: bndE)
    from invoke_events[OF this(1)] \<open>b\<close> True l show ?thesis by (simp add: header_event_def)
  next
    case nr: False
    show ?thesis
    proof (cases "with_auth E \<and> http_code i = 401")
      case True
      with k nr have "invoke E f (callback x) FETCH_AUTH (p x) (RealmData (realm x)) 0 ?s1 = Inr s'" and b
        by (auto elim!: bndE split: if_splits)
      from invoke_events[OF this(1)] \<open>b\<close> True nr show ?thesis by (simp add: header_event_def)
    next
      case na: False
      show ?thesis
      proof (cases "only_2xx x \<and> take 4 (url x) = ''http'' \<and> (http_code i < 200 \<or> 299 < http_code i)")
        case True
        with k nr na have "invoke E f (callback x) FETCH_ERROR (p x) (Message (messages_get E ''Not2xx'')) 0 ?s1 = Inr s'" and b
          by (auto elim!: bndE split: if_splits)
        from invoke_events[OF this(1)] \<open>b\<close> True nr na show ?thesis by (simp add: header_event_def)
      next
        case False
        with k nr na obtain s2 where "invoke E f (callback x) FETCH_TYPE (p x) (MimeType (mime_type E i (url x)))
                (content_length x) ?s1 = Inr s2" and "s' = s2"
          by (auto elim!: bndE split: if_splits)
        from invoke_events[OF this(1)] this(2) False nr na show ?thesis by (simp add: header_event_def)
      qed
    qed
  qed
qed


lemma header_event_not_error_buffer: "fst (snd (header_event E i x)) \<noteq> ErrorBuffer t"
  by (simp add: header_event_def)

lemma poll_resolve_events:
  assumes r: "poll_resolve E m f s = Inr (fin, s0)" and x: "heap s f = Some x"
  shows "events (trace s0) = events (trace s) @
     (if result m = CURLE_OK then
        (if had_headers x then []
         else [Ev f (fst (header_event E (msg_info m) x)) (p x)
                 (fst (snd (header_event E (msg_info m) x))) (snd (snd (header_event E (msg_info m) x)))])
      else if result m \<noteq> CURLE_WRITE_ERROR
      then [Ev f FETCH_ERROR (p x) (ErrorBuffer (error_buffer x)) 0]
      else [])"
proof -
  from r x have k: "(if result m = CURLE_OK then
         (if \<not> had_headers x
          then bnd (fetch_process_headers E (msg_info m) f s) (\<lambda>(ab, s). Inr (\<not> ab, s))
          else Inr (True, s))
       else if result m \<noteq> CURLE_WRITE_ERROR then
         bnd (invoke E f (callback x) FETCH_ERROR (p x) (ErrorBuffer (error_buffer x)) 0 s)
           (\<lambda>s. Inr (False, s))
       else Inr (False, s)) = Inr (fin, s0)"
    by (simp add: poll_resolve_def load_def)
  show ?thesis
  proof (cases "result m = CURLE_OK")
    case True
    show ?thesis
    proof (cases "had_headers x")
      case True
      with k \<open>result m = CURLE_OK\<close> show ?thesis by simp
    next
      case False
      with k True obtain ab where "fetch_process_headers E (msg_info m) f s = Inr (ab, s0)"
        by (auto elim!: bndE)
      from process_headers_events[OF this x] True False show ?thesis by simp
    qed
  next
    case False
    show ?thesis
    proof (cases "result m = CURLE_WRITE_ERROR")
      case True
      with k False show ?thesis by simp
    next
      case nw: False
      with k False have "invoke E f (callback x) FETCH_ERROR (p x) (ErrorBuffer (error_buffer x)) 0 s = Inr s0"
        by (auto elim!: bndE)
      from invoke_events[OF this] False nw show ?thesis by simp
    qed
  qed
qed

lemma poll_done_steps:
  assumes pd: "poll_done E m s = Inr s'"
  obtains x sa fin s0 s1 where
    "heap s (curl_private s (easy_handle m)) = Some x"
    "sa = (if result m = CURLE_OK then s
           else s\<lparr>heap := (heap s)(curl_private s (easy_handle m) \<mapsto> x\<lparr>error_buffer := error_text m\<rparr>)\<rparr>)"
    "poll_resolve E m (curl_private s (easy_handle m)) sa = Inr (fin, s0)"
    "fetch_abort s0 (curl_private s (easy_handle m)) = Inr s1"
    "(if fin then invoke E (curl_private s (easy_handle m)) (callback x) FETCH_FINISHED (p x) NoData 0 s1
      else Inr s1) = Inr s'"
proof -
  let ?f = "curl_private s (easy_handle m)"
  from pd have k: "bnd (if result m = CURLE_OK then Inr s
             else store ?f (\<lambda>y. y\<lparr>error_buffer := error_text m\<rparr>) s) (\<lambda>s.
        bnd (load s ?f) (\<lambda>x.
        bnd (poll_resolve E m ?f s) (\<lambda>(finished, s).
        bnd (fetch_abort s ?f) (\<lambda>s.
        if finished then invoke E ?f (callback x) FETCH_FINISHED (p x) NoData 0 s else Inr s)))) = Inr s'"
    by (simp add: poll_done_def Let_def split: if_splits)
  then have "\<exists>sa xa fin s0 s1. (if result m = CURLE_OK then Inr s
             else store ?f (\<lambda>y. y\<lparr>error_buffer := error_text m\<rparr>) s) = Inr sa \<and>
      heap sa ?f = Some xa \<and> poll_resolve E m ?f sa = Inr (fin, s0) \<and>
      fetch_abort s0 ?f = Inr s1 \<and>
      (if fin then invoke E ?f (callback xa) FETCH_FINISHED (p xa) NoData 0 s1 else Inr s1) = Inr s'"
    apply (elim bndE)
    apply (drule loadD)
    apply clarsimp
    apply (elim bndE)
    subgoal for x xa a b xb
      by (rule exI[of _ xb]) (simp split: if_splits)
    done
  then obtain sa xa fin s0 s1 where a: "(if result m = CURLE_OK then Inr s
             else store ?f (\<lambda>y. y\<lparr>error_buffer := error_text m\<rparr>) s) = Inr sa"
    and xa: "heap sa ?f = Some xa"
    and r: "poll_resolve E m ?f sa = Inr (fin, s0)"
    and ab: "fetch_abort s0 ?f = Inr s1"
    and fi: "(if fin then invoke E ?f (callback xa) FETCH_FINISHED (p xa) NoData 0 s1 else Inr s1) = Inr s'"
    by blast
  show thesis
  proof (cases "result m = CURLE_OK")
    case True
    with a have sa: "sa = s" by simp
    show thesis using that[of xa sa fin s0 s1] xa r ab fi sa True by simp
  next
    case False
    with a have "store ?f (\<lambda>y. y\<lparr>error_buffer := error_text m\<rparr>) s = Inr sa" by simp
    from storeD[OF this] obtain x where x: "heap s ?f = Some x"
      and sa: "sa = s\<lparr>heap := (heap s)(?f \<mapsto> x\<lparr>error_buffer := error_text m\<rparr>)\<rparr>" by blast
    from xa sa have xae: "xa = x\<lparr>error_buffer := error_text m\<rparr>" by simp
    have fi': "(if fin then invoke E ?f (callback x) FETCH_FINISHED (p x) NoData 0 s1 else Inr s1) = Inr s'"
      using fi by (cases fin) (simp_all add: xae)
    have sa': "sa = (if result m = CURLE_OK then s
           else s\<lparr>heap := (heap s)(?f \<mapsto> x\<lparr>error_buffer := error_text m\<rparr>)\<rparr>)"
      using sa False by simp
    show thesis by (rule that[OF x sa' r ab fi'])
  qed
qed

lemma poll_done_events:
  assumes pd: "poll_done E m s = Inr s'"
  shows "\<exists>x fin. heap s (curl_private s (easy_handle m)) = Some x \<and>
     events (trace s') = events (trace s) @
       (if result m = CURLE_OK then
          (if had_headers x then []
           else [Ev (curl_private s (easy_handle m)) (fst (header_event E (msg_info m) x)) (p x)
                 (fst (snd (header_event E (msg_info m) x))) (snd (snd (header_event E (msg_info m) x)))])
        else if result m \<noteq> CURLE_WRITE_ERROR
        then [Ev (curl_private s (easy_handle m)) FETCH_ERROR (p x) (ErrorBuffer (error_text m)) 0]
        else []) @
       (if fin then [Ev (curl_private s (easy_handle m)) FETCH_FINISHED (p x) NoData 0] else []) \<and>
     (fin \<longrightarrow> result m = CURLE_OK)"
proof -
  let ?f = "curl_private s (easy_handle m)"
  from pd obtain x sa fin s0 s1 where
    x: "heap s ?f = Some x"
    and sa: "sa = (if result m = CURLE_OK then s
           else s\<lparr>heap := (heap s)(?f \<mapsto> x\<lparr>error_buffer := error_text m\<rparr>)\<rparr>)"
    and r: "poll_resolve E m ?f sa = Inr (fin, s0)"
    and ab: "fetch_abort s0 ?f = Inr s1"
    and fi: "(if fin then invoke E ?f (callback x) FETCH_FINISHED (p x) NoData 0 s1 else Inr s1) = Inr s'"
    by (rule poll_done_steps)
  have fok: "fin \<longrightarrow> result m = CURLE_OK" using r by (cases fin) (auto dest: poll_resolve_True)
  have e3: "events (trace s') = events (trace s1) @ (if fin then [Ev ?f FETCH_FINISHED (p x) NoData 0] else [])"
    using fi by (cases fin) (auto dest: invoke_events)
  note e2 = fetch_abort_events[OF ab]
  have tsa: "trace sa = trace s" using sa by simp
  show ?thesis
  proof (cases "result m = CURLE_OK")
    case True
    with sa have "sa = s" by simp
    with r have "poll_resolve E m ?f s = Inr (fin, s0)" by simp
    from poll_resolve_events[OF this x] True e2 e3 x fok show ?thesis by auto
  next
    case False
    with sa have xa: "heap sa ?f = Some (x\<lparr>error_buffer := error_text m\<rparr>)" by simp
    from poll_resolve_events[OF r xa] False e2 e3 x fok tsa show ?thesis by auto
  qed
qed

text \<open>
  Claim C6. The events that the processing of one completion adds to the trace contain a
  FETCH_ERROR carrying the error buffer exactly when the engine's result is neither
  CURLE_OK nor CURLE_WRITE_ERROR; then it is the only event, for the fetch of the handle,
  with the engine's text. A completion with CURLE_WRITE_ERROR adds no event at all.
\<close>

theorem error_event_iff_transfer_failure:
  assumes pd: "poll_done E m s = Inr s'"
  shows "\<exists>evs. events (trace s') = events (trace s) @ evs \<and>
     ((\<exists>g pp t n. Ev g FETCH_ERROR pp (ErrorBuffer t) n \<in> set evs)
        \<longleftrightarrow> (result m \<noteq> CURLE_OK \<and> result m \<noteq> CURLE_WRITE_ERROR)) \<and>
     (result m \<noteq> CURLE_OK \<and> result m \<noteq> CURLE_WRITE_ERROR \<longrightarrow>
        (\<exists>pp. evs = [Ev (curl_private s (easy_handle m)) FETCH_ERROR pp (ErrorBuffer (error_text m)) 0])) \<and>
     (result m = CURLE_WRITE_ERROR \<longrightarrow> evs = [])"
proof -
  from poll_done_events[OF pd] obtain x fin where
    e: "events (trace s') = events (trace s) @
       (if result m = CURLE_OK then
          (if had_headers x then []
           else [Ev (curl_private s (easy_handle m)) (fst (header_event E (msg_info m) x)) (p x)
                 (fst (snd (header_event E (msg_info m) x))) (snd (snd (header_event E (msg_info m) x)))])
        else if result m \<noteq> CURLE_WRITE_ERROR
        then [Ev (curl_private s (easy_handle m)) FETCH_ERROR (p x) (ErrorBuffer (error_text m)) 0]
        else []) @
       (if fin then [Ev (curl_private s (easy_handle m)) FETCH_FINISHED (p x) NoData 0] else [])"
    and f: "fin \<longrightarrow> result m = CURLE_OK" by blast
  show ?thesis
    apply (rule exI, rule conjI, rule e)
    using f header_event_not_error_buffer[of E "msg_info m" x, symmetric]
    by (auto simp del: not_None_eq)
qed


theorem error_event_iff_transfer_failure_witness:
  "is_ok (poll_done env0 msg_failed s_one) \<and>
   events (trace (after (poll_done env0 msg_failed s_one))) =
     [Ev 1 FETCH_ERROR 7 (ErrorBuffer ''connection refused'') 0] \<and>
   is_ok (poll_done env0 msg_rejected s_one) \<and>
   events (trace (after (poll_done env0 msg_rejected s_one))) = []"
proof -
  have ok1: "is_ok (poll_done env0 msg_failed s_one)" by code_simp
  have ok2: "is_ok (poll_done env0 msg_rejected s_one)" by code_simp
  have e0: "events (trace s_one) = []" by code_simp
  have r1: "result msg_failed \<noteq> CURLE_OK \<and> result msg_failed \<noteq> CURLE_WRITE_ERROR"
    by (simp add: msg_failed_def)
  have r2: "result msg_rejected = CURLE_WRITE_ERROR" by (simp add: msg_rejected_def)
  from error_event_iff_transfer_failure[OF is_ok_after[OF ok2]] r2 e0
  have a: "events (trace (after (poll_done env0 msg_rejected s_one))) = []" by auto
  from error_event_iff_transfer_failure[OF is_ok_after[OF ok1]] r1 e0
  have b: "\<exists>pp. events (trace (after (poll_done env0 msg_failed s_one))) =
     [Ev (curl_private s_one (easy_handle msg_failed)) FETCH_ERROR pp (ErrorBuffer (error_text msg_failed)) 0]"
    by auto
  have c: "events (trace (after (poll_done env0 msg_failed s_one))) =
     [Ev 1 FETCH_ERROR 7 (ErrorBuffer ''connection refused'') 0]" by code_simp
  show ?thesis using ok1 ok2 a b c by simp
qed

section \<open>The invariant I1\<close>

lemma sched_inv_init: "sched_inv init_sched"
  by (simp add: sched_inv_def init_sched_def)

lemma sched_inv_I1: "sched_inv s \<Longrightarrow> I1 s"
  by (simp add: sched_inv_def I1_def)

lemma sched_inv_I1D:
  "sched_inv s \<Longrightarrow> heap s f = Some x \<Longrightarrow> (queue_prev x = 0) = (curl_handle x \<noteq> 0)"
  unfolding sched_inv_def by blast

lemma sched_inv_linkD:
  "sched_inv s \<Longrightarrow> heap s f = Some x \<Longrightarrow> queue_next x \<noteq> 0 \<Longrightarrow>
   \<exists>y. heap s (queue_next x) = Some y \<and> queue_prev y = f"
  unfolding sched_inv_def by blast

lemma sched_inv_freshD: "sched_inv s \<Longrightarrow> next_ptr s \<le> f \<Longrightarrow> heap s f = None"
  unfolding sched_inv_def by blast

lemma sched_inv_nullD: "sched_inv s \<Longrightarrow> heap s 0 = None"
  unfolding sched_inv_def by blast

lemma sched_inv_posD: "sched_inv s \<Longrightarrow> 0 < next_ptr s"
  unfolding sched_inv_def by blast

lemma sched_invI:
  "0 < next_ptr s \<Longrightarrow> heap s 0 = None \<Longrightarrow> (\<And>f. next_ptr s \<le> f \<Longrightarrow> heap s f = None) \<Longrightarrow>
   (\<And>f x. heap s f = Some x \<Longrightarrow> (queue_prev x = 0) = (curl_handle x \<noteq> 0)) \<Longrightarrow>
   (\<And>f x. heap s f = Some x \<Longrightarrow> queue_next x \<noteq> 0 \<Longrightarrow>
      \<exists>y. heap s (queue_next x) = Some y \<and> queue_prev y = f) \<Longrightarrow> sched_inv s"
  unfolding sched_inv_def by blast

lemma sched_inv_qview:
  assumes v: "\<forall>b. map_option qview (heap s' b) = map_option qview (heap s b)"
    and n: "next_ptr s' = next_ptr s" and i: "sched_inv s"
  shows "sched_inv s'"
proof -
  have dom: "\<And>b. (heap s' b = None) = (heap s b = None)"
    using v by (metis map_option_is_None)
  have fld: "\<And>b x'. heap s' b = Some x' \<Longrightarrow> \<exists>x. heap s b = Some x \<and> qview x = qview x'"
    using v by (metis map_option_eq_Some option.simps(9))
  have fld2: "\<And>b x. heap s b = Some x \<Longrightarrow> \<exists>x'. heap s' b = Some x' \<and> qview x = qview x'"
    using v by (metis map_option_eq_Some option.simps(9))
  show ?thesis
  proof (rule sched_invI)
    show "0 < next_ptr s'" using sched_inv_posD[OF i] n by simp
    show "heap s' 0 = None" using sched_inv_nullD[OF i] dom by simp
  next
    fix f assume "next_ptr s' \<le> f"
    then show "heap s' f = None" using sched_inv_freshD[OF i, of f] dom n by simp
  next
    fix f x' assume a: "heap s' f = Some x'"
    from fld[OF a] obtain x where x: "heap s f = Some x" "qview x = qview x'" by blast
    from sched_inv_I1D[OF i x(1)] x(2) show "(queue_prev x' = 0) = (curl_handle x' \<noteq> 0)"
      by (simp add: qview_def)
  next
    fix f x' assume a: "heap s' f = Some x'" and q: "queue_next x' \<noteq> 0"
    from fld[OF a] obtain x where x: "heap s f = Some x" "qview x = qview x'" by blast
    then have "queue_next x = queue_next x'" by (simp add: qview_def)
    with sched_inv_linkD[OF i x(1)] q obtain y where y: "heap s (queue_next x') = Some y" "queue_prev y = f"
      by auto
    from fld2[OF y(1)] y(2) show "\<exists>y. heap s' (queue_next x') = Some y \<and> queue_prev y = f"
      by (auto simp: qview_def)
  qed
qed


lemma abort_promote_qview:
  "abort_promote f s = Inr s' \<Longrightarrow> heap s f = Some x \<Longrightarrow> queue_next x = q \<Longrightarrow> q \<noteq> f \<Longrightarrow>
   next_ptr s' = next_ptr s \<and>
   (\<forall>b. map_option qview (heap s' b) =
      (if b = q then map_option (\<lambda>y. (curl_handle x, 0, queue_next y, in_callback y)) (heap s q)
       else map_option qview (heap s b)))"
  unfolding abort_promote_def Let_def
  by (elim bndE) (auto split: if_splits dest!: storeD loadD multi_addD simp: emit_def set_private_def qview_def qview_def[abs_def])

lemma abort_release_qview:
  "abort_release f s = Inr s' \<Longrightarrow> heap s f = Some x \<Longrightarrow>
   next_ptr s' = next_ptr s \<and>
   (\<forall>b. map_option qview (heap s' b) =
      map_option (\<lambda>y. (curl_handle y,
         (if b = queue_next x \<and> queue_next x \<noteq> 0 then queue_prev x else queue_prev y),
         (if b = queue_prev x \<and> queue_prev x \<noteq> 0 then queue_next x else queue_next y),
         in_callback y)) (heap s b))"
  unfolding abort_release_def Let_def
  by (elim bndE) (auto split: if_splits dest!: storeD loadD simp: emit_def qview_def qview_def[abs_def])


lemma live_nonnull: "sched_inv s \<Longrightarrow> heap s f = Some x \<Longrightarrow> f \<noteq> 0"
proof
  assume "sched_inv s" "heap s f = Some x" "f = 0"
  then show False using sched_inv_nullD[of s] by simp
qed

lemma head_not_successor:
  assumes i: "sched_inv s" and x: "heap s f = Some x" and h: "curl_handle x \<noteq> 0"
    and z: "heap s b = Some y"
  shows "queue_next y \<noteq> f"
proof
  assume e: "queue_next y = f"
  with live_nonnull[OF i x] sched_inv_linkD[OF i z] x have "queue_prev x = b" by auto
  moreover have "b \<noteq> 0" using live_nonnull[OF i z] .
  ultimately show False using sched_inv_I1D[OF i x] h by simp
qed

lemma promote_inv:
  assumes i: "sched_inv s" and x: "heap s f = Some x" and h: "curl_handle x \<noteq> 0"
    and q: "queue_next x = q" "q \<noteq> 0"
    and n: "next_ptr s' = next_ptr s"
    and v: "\<forall>b. map_option qview (heap s' b) =
      (if b = f then None
       else if b = q then map_option (\<lambda>y. (curl_handle x, 0, queue_next y, in_callback y)) (heap s q)
       else map_option qview (heap s b))"
  shows "sched_inv s'"
proof -
  from sched_inv_linkD[OF i x] q obtain yq where yq: "heap s q = Some yq" "queue_prev yq = f" by auto
  have qf: "q \<noteq> f" using head_not_successor[OF i x h x] q by simp
  have vf: "heap s' f = None" using v by (metis map_option_is_None)
  have vq: "\<exists>y'. heap s' q = Some y' \<and> qview y' = (curl_handle x, 0, queue_next yq, in_callback yq)"
    using v qf yq by (metis (no_types, lifting) map_option_eq_Some option.simps(9))
  have vo: "\<And>b. b \<noteq> f \<Longrightarrow> b \<noteq> q \<Longrightarrow> map_option qview (heap s' b) = map_option qview (heap s b)"
    using v by simp
  have dom: "\<And>b. heap s b = None \<Longrightarrow> heap s' b = None"
    using v yq by (metis map_option_is_None option.distinct(1))
  have old: "\<And>b y'. heap s' b = Some y' \<Longrightarrow> b \<noteq> q \<Longrightarrow> b \<noteq> f \<and> (\<exists>y. heap s b = Some y \<and> qview y = qview y')"
    using vo vf by (metis map_option_eq_Some option.distinct(1) option.simps(9))
  have keep: "\<And>b y. heap s b = Some y \<Longrightarrow> b \<noteq> q \<Longrightarrow> b \<noteq> f \<Longrightarrow> \<exists>y'. heap s' b = Some y' \<and> qview y' = qview y"
    using vo by (metis map_option_eq_Some option.simps(9))
  show ?thesis
  proof (rule sched_invI)
    show "0 < next_ptr s'" using sched_inv_posD[OF i] n by simp
    show "heap s' 0 = None" using sched_inv_nullD[OF i] dom by simp
  next
    fix b assume "next_ptr s' \<le> b"
    then show "heap s' b = None" using sched_inv_freshD[OF i, of b] dom n by simp
  next
    fix b y' assume a: "heap s' b = Some y'"
    show "(queue_prev y' = 0) = (curl_handle y' \<noteq> 0)"
    proof (cases "b = q")
      case True
      with vq a h show ?thesis by (auto simp: qview_def)
    next
      case False
      from old[OF a False] obtain y where "heap s b = Some y" "qview y = qview y'" by blast
      with sched_inv_I1D[OF i this(1)] show ?thesis by (simp add: qview_def)
    qed
  next
    fix b y' assume a: "heap s' b = Some y'" and r: "queue_next y' \<noteq> 0"
    have "\<exists>y. heap s b = Some y \<and> queue_next y = queue_next y' \<and> b \<noteq> f"
    proof (cases "b = q")
      case True
      with vq a yq qf show ?thesis by (auto simp: qview_def)
    next
      case False
      from old[OF a False] show ?thesis by (auto simp: qview_def)
    qed
    then obtain y where y: "heap s b = Some y" "queue_next y = queue_next y'" "b \<noteq> f" by blast
    from sched_inv_linkD[OF i y(1)] r y(2) obtain yr where
      yr: "heap s (queue_next y') = Some yr" "queue_prev yr = b" by auto
    have rf: "queue_next y' \<noteq> f" using head_not_successor[OF i x h y(1)] y(2) by simp
    have rq: "queue_next y' \<noteq> q" using yr yq y(3) by auto
    from keep[OF yr(1) rq rf] yr(2) show "\<exists>y. heap s' (queue_next y') = Some y \<and> queue_prev y = b"
      by (auto simp: qview_def)
  qed
qed


lemma release_inv:
  assumes i: "sched_inv s" and x: "heap s f = Some x"
    and nb: "curl_handle x = 0 \<or> queue_next x = 0"
    and n: "next_ptr s' = next_ptr s"
    and v: "\<forall>b. map_option qview (heap s' b) =
      (if b = f then None
       else map_option (\<lambda>y. (curl_handle y,
         (if b = queue_next x \<and> queue_next x \<noteq> 0 then queue_prev x else queue_prev y),
         (if b = queue_prev x \<and> queue_prev x \<noteq> 0 then queue_next x else queue_next y),
         in_callback y)) (heap s b))"
  shows "sched_inv s'"
proof -
  have f0: "f \<noteq> 0" using live_nonnull[OF i x] .
  have vf: "heap s' f = None"
  proof -
    from v have "map_option qview (heap s' f) = None" by simp
    then show ?thesis by simp
  qed
  have dom: "\<And>b. heap s b = None \<Longrightarrow> heap s' b = None"
  proof -
    fix b assume "heap s b = None"
    with v have "map_option qview (heap s' b) = None" by simp
    then show "heap s' b = None" by simp
  qed
  have old: "\<And>b y'. heap s' b = Some y' \<Longrightarrow> b \<noteq> f \<and> (\<exists>y. heap s b = Some y \<and>
      qview y' = (curl_handle y,
         (if b = queue_next x \<and> queue_next x \<noteq> 0 then queue_prev x else queue_prev y),
         (if b = queue_prev x \<and> queue_prev x \<noteq> 0 then queue_next x else queue_next y),
         in_callback y))"
  proof -
    fix b y' assume a: "heap s' b = Some y'"
    have bf: "b \<noteq> f" using vf a by auto
    with v have "map_option qview (heap s' b) = map_option (\<lambda>y. (curl_handle y,
         (if b = queue_next x \<and> queue_next x \<noteq> 0 then queue_prev x else queue_prev y),
         (if b = queue_prev x \<and> queue_prev x \<noteq> 0 then queue_next x else queue_next y),
         in_callback y)) (heap s b)" by simp
    with a bf show "b \<noteq> f \<and> (\<exists>y. heap s b = Some y \<and>
      qview y' = (curl_handle y,
         (if b = queue_next x \<and> queue_next x \<noteq> 0 then queue_prev x else queue_prev y),
         (if b = queue_prev x \<and> queue_prev x \<noteq> 0 then queue_next x else queue_next y),
         in_callback y))"
      by (cases "heap s b") auto
  qed
  have keep: "\<And>b y. heap s b = Some y \<Longrightarrow> b \<noteq> f \<Longrightarrow> \<exists>y'. heap s' b = Some y' \<and>
      queue_prev y' = (if b = queue_next x \<and> queue_next x \<noteq> 0 then queue_prev x else queue_prev y)"
  proof -
    fix b y assume a: "heap s b = Some y" and bf: "b \<noteq> f"
    with v have "map_option qview (heap s' b) = Some (curl_handle y,
         (if b = queue_next x \<and> queue_next x \<noteq> 0 then queue_prev x else queue_prev y),
         (if b = queue_prev x \<and> queue_prev x \<noteq> 0 then queue_next x else queue_next y),
         in_callback y)" by simp
    then show "\<exists>y'. heap s' b = Some y' \<and>
      queue_prev y' = (if b = queue_next x \<and> queue_next x \<noteq> 0 then queue_prev x else queue_prev y)"
      by (cases "heap s' b") (auto simp: qview_def)
  qed
  have succ: "queue_next x \<noteq> 0 \<Longrightarrow> queue_prev x \<noteq> 0 \<and>
      (\<exists>yn. heap s (queue_next x) = Some yn \<and> queue_prev yn = f)"
    using nb sched_inv_I1D[OF i x] sched_inv_linkD[OF i x] by auto
  have self: "queue_next x = f \<Longrightarrow> queue_prev x = f"
    using sched_inv_linkD[OF i x] x f0 by auto
  show ?thesis
  proof (rule sched_invI)
    show "0 < next_ptr s'" using sched_inv_posD[OF i] n by simp
    show "heap s' 0 = None" using sched_inv_nullD[OF i] dom by simp
  next
    fix b assume "next_ptr s' \<le> b"
    then show "heap s' b = None" using sched_inv_freshD[OF i, of b] dom n by simp
  next
    fix b y' assume a: "heap s' b = Some y'"
    from old[OF a] obtain y where bf: "b \<noteq> f" and y: "heap s b = Some y"
      and q: "qview y' = (curl_handle y,
         (if b = queue_next x \<and> queue_next x \<noteq> 0 then queue_prev x else queue_prev y),
         (if b = queue_prev x \<and> queue_prev x \<noteq> 0 then queue_next x else queue_next y),
         in_callback y)" by blast
    show "(queue_prev y' = 0) = (curl_handle y' \<noteq> 0)"
    proof (cases "b = queue_next x \<and> queue_next x \<noteq> 0")
      case True
      with succ y have "queue_prev x \<noteq> 0" "queue_prev y = f" by auto
      with sched_inv_I1D[OF i y] f0 q True show ?thesis by (simp add: qview_def)
    next
      case False
      with sched_inv_I1D[OF i y] q show ?thesis by (auto simp: qview_def)
    qed
  next
    fix b y' assume a: "heap s' b = Some y'" and r: "queue_next y' \<noteq> 0"
    from old[OF a] obtain y where bf: "b \<noteq> f" and y: "heap s b = Some y"
      and q: "qview y' = (curl_handle y,
         (if b = queue_next x \<and> queue_next x \<noteq> 0 then queue_prev x else queue_prev y),
         (if b = queue_prev x \<and> queue_prev x \<noteq> 0 then queue_next x else queue_next y),
         in_callback y)" by blast
    show "\<exists>y. heap s' (queue_next y') = Some y \<and> queue_prev y = b"
    proof (cases "b = queue_prev x \<and> queue_prev x \<noteq> 0")
      case True
      with q have e: "queue_next y' = queue_next x" by (auto simp: qview_def)
      with r succ obtain yn where yn: "heap s (queue_next x) = Some yn" by auto
      have "queue_next x \<noteq> f" using self True bf by auto
      from keep[OF yn this] r e True show ?thesis by auto
    next
      case False
      with q have e: "queue_next y' = queue_next y" by (auto simp: qview_def)
      with sched_inv_linkD[OF i y] r obtain yr where
        yr: "heap s (queue_next y) = Some yr" "queue_prev yr = b" by auto
      have rf: "queue_next y \<noteq> f"
      proof
        assume "queue_next y = f"
        with yr x have "queue_prev x = b" by simp
        with False live_nonnull[OF i y] show False by simp
      qed
      have rn: "\<not> (queue_next y = queue_next x \<and> queue_next x \<noteq> 0)"
      proof
        assume c: "queue_next y = queue_next x \<and> queue_next x \<noteq> 0"
        with succ yr have "b = f" by auto
        with bf show False by simp
      qed
      from keep[OF yr(1) rf] rn yr(2) e show ?thesis by auto
    qed
  qed
qed


lemma abort_remove_handle_heap:
  "abort_remove_handle f s = Inr s' \<Longrightarrow> heap s' = heap s \<and> next_ptr s' = next_ptr s"
  unfolding abort_remove_handle_def
  by (elim bndE) (auto split: if_splits dest!: multi_removeD simp: emit_def)

lemma store_benign_inv:
  assumes st: "store a g s = Inr s'" and b: "\<forall>y. qview (g y) = qview y" and i: "sched_inv s"
  shows "sched_inv s'"
proof -
  from storeD[OF st] obtain x where x: "heap s a = Some x"
    and s': "s' = s\<lparr>heap := (heap s)(a \<mapsto> g x)\<rparr>" by blast
  have "\<forall>c. map_option qview (heap s' c) = map_option qview (heap s c)"
    using x b by (simp add: s')
  moreover have "next_ptr s' = next_ptr s" by (simp add: s')
  ultimately show ?thesis using i by (rule sched_inv_qview)
qed

lemma fetch_abort_inv:
  assumes a: "fetch_abort s f = Inr s'" and i: "sched_inv s"
  shows "sched_inv s'"
proof (cases "heap s f")
  case None
  with a show ?thesis by (simp add: fetch_abort_def load_def split: if_splits)
next
  case (Some x)
  show ?thesis
  proof (cases "in_callback x")
    case True
    with a Some have "store f (\<lambda>y. y\<lparr>aborting := True\<rparr>) s = Inr s'"
      by (simp add: fetch_abort_def load_def split: if_splits)
    then show ?thesis by (rule store_benign_inv) (simp_all add: qview_def i)
  next
    case False
    from a Some False obtain sa sb xb sc where
      u: "abort_unlink f s = Inr sa" and r: "abort_remove_handle f sa = Inr sb"
      and xb: "heap sb f = Some xb"
      and br: "(if curl_handle xb \<noteq> 0 \<and> queue_next xb \<noteq> 0 then abort_promote f sb else abort_release f sb) = Inr sc"
      and fr: "xfree f sc = Inr s'"
      by (rule fetch_abort_steps)
    from abort_unlink_frame[OF u] have "next_ptr sa = next_ptr s"
      and "\<forall>b. map_option qview (heap sa b) = map_option qview (heap s b)" by (simp_all add: ctl_def)
    then have ia: "sched_inv sa" using i by (intro sched_inv_qview[of sa s]) simp_all
    from abort_remove_handle_heap[OF r] have ib: "sched_inv sb"
      using ia by (intro sched_inv_qview[of sb sa]) simp_all
    from xfreeD[OF fr] have s': "heap s' = (heap sc)(f := None)" "next_ptr s' = next_ptr sc" by auto
    show ?thesis
    proof (cases "curl_handle xb \<noteq> 0 \<and> queue_next xb \<noteq> 0")
      case True
      with br have pr: "abort_promote f sb = Inr sc" by simp
      have qf: "queue_next xb \<noteq> f" using head_not_successor[OF ib xb _ xb] True by simp
      from abort_promote_qview[OF pr xb refl qf] s'
      show ?thesis
        by (intro promote_inv[OF ib xb _ refl, of s']) (use True in auto)
    next
      case nb: False
      with br have rl: "abort_release f sb = Inr sc" by (auto split: if_splits)
      from abort_release_qview[OF rl xb] s'
      show ?thesis
        by (intro release_inv[OF ib xb, of s']) (use nb in auto)
    qed
  qed
qed

lemma start_active_qview:
  "start_active s nf = Inr (g, s') \<Longrightarrow> heap s nf = Some x \<Longrightarrow>
   next_ptr s' = next_ptr s \<and> next_handle s \<noteq> 0 \<and>
   (\<forall>b. map_option qview (heap s' b) =
      (if b = nf then Some (next_handle s, queue_prev x, queue_next x, in_callback x)
       else map_option qview (heap s b)))"
  unfolding start_active_def Let_def
  by (elim bndE) (auto split: if_splits elim!: bndE dest!: storeD multi_addD
        simp: emit_def set_private_def qview_def qview_def[abs_def])

lemma queue_end_tail:
  "queue_end n s hf = Inr t \<Longrightarrow> \<exists>y. heap s t = Some y \<and> queue_next y = 0"
proof (induction n arbitrary: hf)
  case 0
  then show ?case by simp
next
  case (Suc n)
  from Suc.prems obtain x where x: "heap s hf = Some x"
    and k: "(if queue_next x \<noteq> 0 then queue_end n s (queue_next x) else Inr hf) = Inr t"
    by (auto elim!: bndE dest!: loadD)
  show ?case
  proof (cases "queue_next x \<noteq> 0")
    case True
    with k have "queue_end n s (queue_next x) = Inr t" by simp
    then show ?thesis by (rule Suc.IH)
  next
    case False
    with k x show ?thesis by auto
  qed
qed

lemma fresh_inv:
  assumes i: "sched_inv s0"
    and n: "next_ptr s' = Suc (next_ptr s0)"
    and h: "h \<noteq> 0"
    and v: "\<forall>b. map_option qview (heap s' b) =
      (if b = next_ptr s0 then Some (h, 0, 0, c) else map_option qview (heap s0 b))"
  shows "sched_inv s'"
proof -
  let ?nf = "next_ptr s0"
  have nf0: "heap s0 ?nf = None" using sched_inv_freshD[OF i] by simp
  have dom: "\<And>b. b \<noteq> ?nf \<Longrightarrow> heap s0 b = None \<Longrightarrow> heap s' b = None"
  proof -
    fix b assume "b \<noteq> ?nf" "heap s0 b = None"
    with v[rule_format, of b] have "map_option qview (heap s' b) = None" by simp
    then show "heap s' b = None" by simp
  qed
  have old: "\<And>b y'. heap s' b = Some y' \<Longrightarrow> b \<noteq> ?nf \<Longrightarrow> \<exists>y. heap s0 b = Some y \<and> qview y = qview y'"
  proof -
    fix b y' assume a: "heap s' b = Some y'" "b \<noteq> ?nf"
    with v[rule_format, of b] have "map_option qview (heap s0 b) = Some (qview y')" by simp
    then show "\<exists>y. heap s0 b = Some y \<and> qview y = qview y'" by (cases "heap s0 b") auto
  qed
  have keep: "\<And>b y. heap s0 b = Some y \<Longrightarrow> \<exists>y'. heap s' b = Some y' \<and> qview y' = qview y"
  proof -
    fix b y assume a: "heap s0 b = Some y"
    with nf0 have "b \<noteq> ?nf" by auto
    with v[rule_format, of b] a have "map_option qview (heap s' b) = Some (qview y)" by simp
    then show "\<exists>y'. heap s' b = Some y' \<and> qview y' = qview y" by (cases "heap s' b") auto
  qed
  have new: "\<And>y'. heap s' ?nf = Some y' \<Longrightarrow> qview y' = (h, 0, 0, c)"
    using v[rule_format, of ?nf] by auto
  show ?thesis
  proof (rule sched_invI)
    show "0 < next_ptr s'" using n by simp
    show "heap s' 0 = None" using dom[of 0] sched_inv_nullD[OF i] sched_inv_posD[OF i] by simp
  next
    fix b assume "next_ptr s' \<le> b"
    with n have "b \<noteq> ?nf" "?nf \<le> b" by auto
    then show "heap s' b = None" using dom sched_inv_freshD[OF i] by simp
  next
    fix b y' assume a: "heap s' b = Some y'"
    show "(queue_prev y' = 0) = (curl_handle y' \<noteq> 0)"
    proof (cases "b = ?nf")
      case True
      with new a h show ?thesis by (auto simp: qview_def)
    next
      case False
      from old[OF a False] obtain y where "heap s0 b = Some y" "qview y = qview y'" by blast
      with sched_inv_I1D[OF i this(1)] show ?thesis by (simp add: qview_def)
    qed
  next
    fix b y' assume a: "heap s' b = Some y'" and r: "queue_next y' \<noteq> 0"
    have bn: "b \<noteq> ?nf" using new a r by (auto simp: qview_def)
    from old[OF a bn] obtain y where y: "heap s0 b = Some y" "qview y = qview y'" by blast
    then have "queue_next y = queue_next y'" by (simp add: qview_def)
    with sched_inv_linkD[OF i y(1)] r obtain yr where
      yr: "heap s0 (queue_next y') = Some yr" "queue_prev yr = b" by auto
    from keep[OF yr(1)] yr(2) show "\<exists>y. heap s' (queue_next y') = Some y \<and> queue_prev y = b"
      by (auto simp: qview_def)
  qed
qed


lemma enqueue_inv:
  assumes i: "sched_inv s0"
    and n: "next_ptr s' = Suc (next_ptr s0)"
    and t0: "t \<noteq> 0"
    and v: "\<forall>b. map_option qview (heap s' b) =
      (if b = next_ptr s0 then Some (0, t, (if t = next_ptr s0 then next_ptr s0 else 0), False)
       else if b = t then map_option (\<lambda>y. (curl_handle y, queue_prev y, next_ptr s0, in_callback y)) (heap s0 b)
       else map_option qview (heap s0 b))"
  shows "sched_inv s'"
proof -
  let ?nf = "next_ptr s0"
  have nf0: "heap s0 ?nf = None" using sched_inv_freshD[OF i] by simp
  have nfp: "?nf \<noteq> 0" using sched_inv_posD[OF i] by simp
  have dom: "\<And>b. b \<noteq> ?nf \<Longrightarrow> heap s0 b = None \<Longrightarrow> heap s' b = None"
  proof -
    fix b assume "b \<noteq> ?nf" "heap s0 b = None"
    with v[rule_format, of b] have "map_option qview (heap s' b) = None" by auto
    then show "heap s' b = None" by simp
  qed
  have old: "\<And>b y'. heap s' b = Some y' \<Longrightarrow> b \<noteq> ?nf \<Longrightarrow> \<exists>y. heap s0 b = Some y \<and>
       curl_handle y' = curl_handle y \<and> queue_prev y' = queue_prev y \<and>
       queue_next y' = (if b = t then ?nf else queue_next y)"
  proof -
    fix b y' assume a: "heap s' b = Some y'" "b \<noteq> ?nf"
    with v[rule_format, of b] show "\<exists>y. heap s0 b = Some y \<and>
       curl_handle y' = curl_handle y \<and> queue_prev y' = queue_prev y \<and>
       queue_next y' = (if b = t then ?nf else queue_next y)"
      by (cases "heap s0 b") (auto simp: qview_def split: if_splits)
  qed
  have keep: "\<And>b y. heap s0 b = Some y \<Longrightarrow> \<exists>y'. heap s' b = Some y' \<and> queue_prev y' = queue_prev y"
  proof -
    fix b y assume a: "heap s0 b = Some y"
    with nf0 have "b \<noteq> ?nf" by auto
    with v[rule_format, of b] a show "\<exists>y'. heap s' b = Some y' \<and> queue_prev y' = queue_prev y"
      by (cases "heap s' b") (auto simp: qview_def split: if_splits)
  qed
  have new: "\<exists>y'. heap s' ?nf = Some y' \<and> qview y' = (0, t, (if t = ?nf then ?nf else 0), False)"
    using v[rule_format, of ?nf] by (cases "heap s' ?nf") auto
  show ?thesis
  proof (rule sched_invI)
    show "0 < next_ptr s'" using n by simp
    show "heap s' 0 = None" using dom[of 0] sched_inv_nullD[OF i] nfp by simp
  next
    fix b assume "next_ptr s' \<le> b"
    with n have "b \<noteq> ?nf" "?nf \<le> b" by auto
    then show "heap s' b = None" using dom sched_inv_freshD[OF i] by simp
  next
    fix b y' assume a: "heap s' b = Some y'"
    show "(queue_prev y' = 0) = (curl_handle y' \<noteq> 0)"
    proof (cases "b = ?nf")
      case True
      with new a t0 show ?thesis by (auto simp: qview_def)
    next
      case False
      from old[OF a False] obtain y where "heap s0 b = Some y"
        "curl_handle y' = curl_handle y" "queue_prev y' = queue_prev y" by blast
      with sched_inv_I1D[OF i this(1)] show ?thesis by simp
    qed
  next
    fix b y' assume a: "heap s' b = Some y'" and r: "queue_next y' \<noteq> 0"
    show "\<exists>y. heap s' (queue_next y') = Some y \<and> queue_prev y = b"
    proof (cases "b = ?nf")
      case True
      with new a r have "t = ?nf" "queue_next y' = ?nf" "queue_prev y' = ?nf"
        by (auto simp: qview_def split: if_splits)
      with True a show ?thesis by simp
    next
      case bn: False
      from old[OF a bn] obtain y where y: "heap s0 b = Some y"
        "queue_next y' = (if b = t then ?nf else queue_next y)" by blast
      show ?thesis
      proof (cases "b = t")
        case True
        with y new bn show ?thesis by (auto simp: qview_def)
      next
        case False
        with y have e: "queue_next y' = queue_next y" by simp
        with sched_inv_linkD[OF i y(1)] r obtain yr where
          yr: "heap s0 (queue_next y') = Some yr" "queue_prev yr = b" by auto
        from keep[OF yr(1)] yr(2) show ?thesis by auto
      qed
    qed
  qed
qed


lemma fetch_start_cases:
  assumes a: "fetch_start E s0 u r cb pp o2 = Inr (g, s')"
  defines "sA \<equiv> s0\<lparr>heap := (heap s0)(next_ptr s0 \<mapsto> new_fetch E u r cb pp o2), next_ptr := Suc (next_ptr s0)\<rparr>"
  shows "start_active sA (next_ptr s0) = Inr (g, s') \<or>
     (\<exists>h hf s1 t s2. url_host E u = Some h \<and> find_host (next_ptr sA) sA (fetch_list sA) h = Inr hf \<and> hf \<noteq> 0 \<and>
        store (next_ptr s0) (\<lambda>x. x\<lparr>curl_handle := 0\<rparr>) sA = Inr s1 \<and>
        queue_end (next_ptr s1) s1 hf = Inr t \<and>
        store (next_ptr s0) (\<lambda>x. x\<lparr>queue_prev := t\<rparr>) s1 = Inr s2 \<and>
        store t (\<lambda>x. x\<lparr>queue_next := next_ptr s0\<rparr>) s2 = Inr s' \<and> g = next_ptr s0)"
  using a unfolding fetch_start_def Let_def sA_def
  apply (cases "url_host E u")
   apply simp
  apply (simp del: find_host.simps queue_end.simps)
  apply (erule bndE)
  apply (simp del: find_host.simps queue_end.simps split: if_splits)
  apply (elim bndE)
  apply (simp del: find_host.simps queue_end.simps)
  done

lemma fetch_start_inv:
  assumes a: "fetch_start E s0 u r cb pp o2 = Inr (g, s')" and i: "sched_inv s0"
  shows "sched_inv s'"
proof -
  let ?nf = "next_ptr s0"
  let ?N = "new_fetch E u r cb pp o2"
  let ?sA = "s0\<lparr>heap := (heap s0)(?nf \<mapsto> ?N), next_ptr := Suc ?nf\<rparr>"
  have nfp: "?nf \<noteq> 0" using sched_inv_posD[OF i] by simp
  from fetch_start_cases[OF a] consider
    (A) "start_active ?sA ?nf = Inr (g, s')"
    | (B) hf s1 t s2 where "store ?nf (\<lambda>x. x\<lparr>curl_handle := 0\<rparr>) ?sA = Inr s1"
        "queue_end (next_ptr s1) s1 hf = Inr t"
        "store ?nf (\<lambda>x. x\<lparr>queue_prev := t\<rparr>) s1 = Inr s2"
        "store t (\<lambda>x. x\<lparr>queue_next := ?nf\<rparr>) s2 = Inr s'"
    by blast
  then show ?thesis
  proof cases
    case A
    have "heap ?sA ?nf = Some ?N" by simp
    from start_active_qview[OF A this]
    show ?thesis
      by (intro fresh_inv[OF i, of s' "next_handle ?sA" False]) (auto simp: new_fetch_def)
  next
    case B
    let ?N0 = "?N\<lparr>curl_handle := 0\<rparr>"
    from storeD[OF B(1)] have s1: "s1 = ?sA\<lparr>heap := (heap ?sA)(?nf \<mapsto> ?N0)\<rparr>" by auto
    from queue_end_tail[OF B(2)] obtain yt where yt: "heap s1 t = Some yt" by blast
    have t0: "t \<noteq> 0"
    proof
      assume "t = 0"
      with yt s1 nfp sched_inv_nullD[OF i] show False by simp
    qed
    from storeD[OF B(3)] s1 have s2: "s2 = s1\<lparr>heap := (heap s1)(?nf \<mapsto> ?N0\<lparr>queue_prev := t\<rparr>)\<rparr>"
      by auto
    from storeD[OF B(4)] obtain z where z: "heap s2 t = Some z"
      and s': "s' = s2\<lparr>heap := (heap s2)(t \<mapsto> z\<lparr>queue_next := ?nf\<rparr>)\<rparr>" by blast
    have n: "next_ptr s' = Suc ?nf" by (simp add: s' s2 s1)
    have v: "\<forall>b. map_option qview (heap s' b) =
      (if b = ?nf then Some (0, t, (if t = ?nf then ?nf else 0), False)
       else if b = t then map_option (\<lambda>y. (curl_handle y, queue_prev y, ?nf, in_callback y)) (heap s0 b)
       else map_option qview (heap s0 b))"
      using z by (auto simp: s' s2 s1 qview_def new_fetch_def split: if_splits)
    from enqueue_inv[OF i n t0 v] show ?thesis .
  qed
qed


lemma sched_inv_links:
  assumes v: "\<forall>b. map_option (\<lambda>y. (curl_handle y, queue_prev y, queue_next y)) (heap s' b) =
                 map_option (\<lambda>y. (curl_handle y, queue_prev y, queue_next y)) (heap s b)"
    and n: "next_ptr s' = next_ptr s" and i: "sched_inv s"
  shows "sched_inv s'"
proof -
  have dom: "\<And>b. heap s b = None \<Longrightarrow> heap s' b = None"
  proof -
    fix b assume "heap s b = None"
    with v[rule_format, of b] show "heap s' b = None" by simp
  qed
  have fld: "\<And>b x'. heap s' b = Some x' \<Longrightarrow> \<exists>x. heap s b = Some x \<and>
      curl_handle x = curl_handle x' \<and> queue_prev x = queue_prev x' \<and> queue_next x = queue_next x'"
  proof -
    fix b x' assume "heap s' b = Some x'"
    with v[rule_format, of b] show "\<exists>x. heap s b = Some x \<and>
      curl_handle x = curl_handle x' \<and> queue_prev x = queue_prev x' \<and> queue_next x = queue_next x'"
      by (cases "heap s b") auto
  qed
  have fld2: "\<And>b x. heap s b = Some x \<Longrightarrow> \<exists>x'. heap s' b = Some x' \<and> queue_prev x' = queue_prev x"
  proof -
    fix b x assume "heap s b = Some x"
    with v[rule_format, of b] show "\<exists>x'. heap s' b = Some x' \<and> queue_prev x' = queue_prev x"
      by (cases "heap s' b") auto
  qed
  show ?thesis
  proof (rule sched_invI)
    show "0 < next_ptr s'" using sched_inv_posD[OF i] n by simp
    show "heap s' 0 = None" using sched_inv_nullD[OF i] dom by simp
  next
    fix f assume "next_ptr s' \<le> f"
    then show "heap s' f = None" using sched_inv_freshD[OF i, of f] dom n by simp
  next
    fix f x' assume a: "heap s' f = Some x'"
    from fld[OF a] obtain x where x: "heap s f = Some x"
      "curl_handle x = curl_handle x'" "queue_prev x = queue_prev x'" by blast
    from sched_inv_I1D[OF i x(1)] x(2,3) show "(queue_prev x' = 0) = (curl_handle x' \<noteq> 0)" by simp
  next
    fix f x' assume a: "heap s' f = Some x'" and q: "queue_next x' \<noteq> 0"
    from fld[OF a] obtain x where x: "heap s f = Some x" "queue_next x = queue_next x'" by blast
    with sched_inv_linkD[OF i x(1)] q obtain y where y: "heap s (queue_next x') = Some y" "queue_prev y = f"
      by auto
    from fld2[OF y(1)] y(2) show "\<exists>y. heap s' (queue_next x') = Some y \<and> queue_prev y = f" by auto
  qed
qed

lemma stable_sched_inv: "stable E sched_inv"
  unfolding stable_def
proof (intro conjI allI impI)
  fix e s assume "sched_inv s"
  then show "sched_inv (emit e s)" by (rule sched_inv_links[rotated 2]) (simp_all add: emit_def)
next
  fix a g s s' assume b: "benign g" and i: "sched_inv s" and st: "store a g s = Inr s'"
  from storeD[OF st] obtain x where x: "heap s a = Some x"
    and s': "s' = s\<lparr>heap := (heap s)(a \<mapsto> g x)\<rparr>" by blast
  from b have "curl_handle (g x) = curl_handle x" "queue_prev (g x) = queue_prev x"
    "queue_next (g x) = queue_next x" by (simp_all add: benign_def)
  then show "sched_inv s'" using i x by (intro sched_inv_links[of s' s]) (simp_all add: s')
next
  fix h s assume "sched_inv s"
  then show "sched_inv (s\<lparr>curl_failed := h # curl_failed s\<rparr>)"
    by (rule sched_inv_links[rotated 2]) simp_all
next
  fix s f s' assume "sched_inv s" "fetch_abort s f = Inr s'"
  then show "sched_inv s'" using fetch_abort_inv by blast
next
  fix s u r cb pp o2 g s' assume "sched_inv s" "fetch_start E s u r cb pp o2 = Inr (g, s')"
  then show "sched_inv s'" using fetch_start_inv by blast
qed

lemma fetch_poll_inv:
  assumes a: "fetch_poll E acts msgs s = Inr s'" and i: "sched_inv s"
  shows "sched_inv s'"
proof -
  from a obtain s1 s2 where p: "perform E acts s = Inr s1" and d: "drain E msgs s1 = Inr s2"
    and e: "s' = (if fetch_list s2 = 0 then s2\<lparr>fetch_active := False\<rparr> else s2)"
    unfolding fetch_poll_def by (elim bndE) auto
  have "sched_inv s2"
    using stable_drain[OF d stable_sched_inv stable_perform[OF p stable_sched_inv i]] .
  then show ?thesis unfolding e by (rule sched_inv_links[rotated 2]) simp_all
qed

lemma step_inv: "step E c s = Inr s' \<Longrightarrow> sched_inv s \<Longrightarrow> sched_inv s'"
  by (cases c) (auto elim!: bndE dest: fetch_start_inv fetch_abort_inv fetch_poll_inv)

lemma run_inv: "run E cs s = Inr s' \<Longrightarrow> sched_inv s \<Longrightarrow> sched_inv s'"
  by (induction cs arbitrary: s) (auto elim!: bndE dest: step_inv)

text \<open>
  Claim C2. After any run of \<^verbatim>\<open>fetch_start\<close>, \<^verbatim>\<open>fetch_abort\<close> and \<^verbatim>\<open>fetch_poll\<close> calls from the
  initial state, whatever the engine and the client callbacks do, every fetch in the store
  has \<^verbatim>\<open>queue_prev == 0\<close> exactly when its \<^verbatim>\<open>curl_handle\<close> is not 0: the heads of the host
  queues are the fetches that hold a handle, and the fetches queued behind them hold none.
\<close>

theorem I1_at_observation_points:
  assumes "run E ops init_sched = Inr s" and "heap s f = Some x"
  shows "(queue_prev x = 0) = (curl_handle x \<noteq> 0)"
  using sched_inv_I1D[OF run_inv[OF assms(1) sched_inv_init] assms(2)] .

theorem I1_at_observation_points_witness:
  "is_ok (run env0 ops_two init_sched) \<and>
   \<not> Option.is_none (heap (after (run env0 ops_two init_sched)) 2) \<and>
   queue_prev (the (heap (after (run env0 ops_two init_sched)) 2)) = 1 \<and>
   curl_handle (the (heap (after (run env0 ops_two init_sched)) 2)) = 0"
proof -
  let ?s = "after (run env0 ops_two init_sched)"
  have ok: "is_ok (run env0 ops_two init_sched)" by code_simp
  have live: "\<not> Option.is_none (heap ?s 2)" by code_simp
  have qp: "queue_prev (the (heap ?s 2)) = 1" by code_simp
  from I1_at_observation_points[OF is_ok_after[OF ok] not_none_the[OF live]] qp
  have "curl_handle (the (heap ?s 2)) = 0" by simp
  with ok live qp show ?thesis by simp
qed


section \<open>Starting a fetch for a host that is already being fetched\<close>






lemma chain_null [simp]: "chain n nx s 0 = Some []"
  by (cases n) simp_all






lemma qview_some:
  "map_option qview (heap s' b) = map_option qview (heap s b) \<Longrightarrow> heap s b = Some y \<Longrightarrow>
   \<exists>y'. heap s' b = Some y' \<and> qview y' = qview y"
  by (cases "heap s' b") auto







lemma evs_of_append [simp]: "evs_of f (a @ b) = evs_of f a @ evs_of f b"
  by (simp add: evs_of_def)

lemma evs_of_Nil [simp]: "evs_of f [] = []"
  by (simp add: evs_of_def)

lemma evs_of_Cons: "evs_of f (e # es) = (if is_ev_of f e then e # evs_of f es else evs_of f es)"
  by (simp add: evs_of_def)

lemma not_is_ev: "\<not> is_ev e \<Longrightarrow> \<not> is_ev_of f e"
  by (cases e) simp_all

lemma evs_of_events: "evs_of f (events tr) = evs_of f tr"
proof (induction tr)
  case Nil
  show ?case by (simp add: events_def)
next
  case (Cons a tr)
  show ?case
  proof (cases "is_ev a")
    case True
    with Cons show ?thesis by (simp add: events_def evs_of_def)
  next
    case False
    with Cons not_is_ev[OF False, of f] show ?thesis by (simp add: events_def evs_of_def)
  qed
qed

lemma evs_of_cong: "events tr' = events tr \<Longrightarrow> evs_of f tr' = evs_of f tr"
proof -
  assume a: "events tr' = events tr"
  have "evs_of f tr' = evs_of f (events tr')" by (simp add: evs_of_events)
  also have "\<dots> = evs_of f (events tr)" using a by simp
  also have "\<dots> = evs_of f tr" by (simp add: evs_of_events)
  finally show ?thesis .
qed

lemma redirected_cong: "events tr' = events tr \<Longrightarrow> redirected f tr' = redirected f tr"
proof -
  assume "events tr' = events tr"
  then have "evs_of f tr' = evs_of f tr" by (rule evs_of_cong)
  then show ?thesis by (simp only: redirected_def)
qed

lemma abort_unlink_hh:
  "abort_unlink f s = Inr s' \<Longrightarrow> \<forall>b. map_option had_headers (heap s' b) = map_option had_headers (heap s b)"
  unfolding abort_unlink_def
  by (elim bndE) (auto split: if_splits dest!: storeD loadD)

lemma abort_promote_hh:
  "abort_promote f s = Inr s' \<Longrightarrow> \<forall>b. map_option had_headers (heap s' b) = map_option had_headers (heap s b)"
  unfolding abort_promote_def Let_def
  by (elim bndE) (auto split: if_splits dest!: storeD loadD multi_addD simp: emit_def set_private_def)

lemma abort_release_hh:
  "abort_release f s = Inr s' \<Longrightarrow> \<forall>b. map_option had_headers (heap s' b) = map_option had_headers (heap s b)"
  unfolding abort_release_def Let_def
  by (elim bndE) (auto split: if_splits dest!: storeD loadD simp: emit_def)

lemma abort_release_eng:
  "abort_release f s = Inr s' \<Longrightarrow>
   curl_multi s' = curl_multi s \<and> curl_private s' = curl_private s \<and> curl_failed s' = curl_failed s"
  unfolding abort_release_def Let_def
  by (elim bndE) (auto split: if_splits dest!: storeD loadD simp: emit_def)

lemma abort_promote_eng:
  "abort_promote f s = Inr s' \<Longrightarrow> heap s f = Some x \<Longrightarrow> queue_next x \<noteq> f \<Longrightarrow>
   curl_multi s' = curl_multi s @ [curl_handle x] \<and> curl_handle x \<notin> set (curl_multi s) \<and>
   curl_private s' = (curl_private s)(curl_handle x := queue_next x) \<and>
   curl_failed s' = curl_failed s"
  unfolding abort_promote_def Let_def
  by (elim bndE) (auto split: if_splits dest!: storeD loadD multi_addD simp: emit_def set_private_def)

lemma abort_remove_handle_eng:
  "abort_remove_handle f s = Inr s' \<Longrightarrow> heap s f = Some x \<Longrightarrow>
   heap s' = heap s \<and> next_ptr s' = next_ptr s \<and> curl_private s' = curl_private s \<and>
   (if curl_handle x = 0
    then curl_multi s' = curl_multi s \<and> curl_failed s' = curl_failed s
    else curl_handle x \<in> set (curl_multi s) \<and>
         curl_multi s' = remove1 (curl_handle x) (curl_multi s) \<and>
         curl_failed s' = removeAll (curl_handle x) (curl_failed s))"
  unfolding abort_remove_handle_def
  by (elim bndE) (auto split: if_splits dest!: loadD multi_removeD simp: emit_def)

lemma pview_from:
  assumes "map_option qview (heap s' b) = map_option qview (heap s b)"
    and "map_option had_headers (heap s' b) = map_option had_headers (heap s b)"
  shows "map_option pview (heap s' b) = map_option pview (heap s b)"
  using assms by (cases "heap s' b"; cases "heap s b") (auto simp: qview_def pview_def)

lemma fetch_abort_effect:
  assumes a: "fetch_abort s g = Inr s'" and x: "heap s g = Some x" and nc: "\<not> in_callback x"
    and i: "sched_inv s"
  defines "h \<equiv> curl_handle x" and "q \<equiv> queue_next x"
  defines "pr \<equiv> (h \<noteq> 0 \<and> q \<noteq> 0)"
  shows "next_ptr s' = next_ptr s \<and> events (trace s') = events (trace s) \<and>
        (\<forall>b. map_option pview (heap s' b) =
          (if b = g then None
           else if pr \<and> b = q then map_option (\<lambda>y. (h, in_callback y, had_headers y)) (heap s b)
           else map_option pview (heap s b))) \<and>
        curl_multi s' = (if h = 0 then curl_multi s else if q = 0 then remove1 h (curl_multi s)
                      else remove1 h (curl_multi s) @ [h]) \<and>
        curl_private s' = (if pr then (curl_private s)(h := q) else curl_private s) \<and>
        curl_failed s' = (if h = 0 then curl_failed s else removeAll h (curl_failed s))"
    and "h \<noteq> 0 \<longrightarrow> h \<in> set (curl_multi s)"
    and "pr \<longrightarrow> q \<noteq> g \<and> (\<exists>yq. heap s q = Some yq \<and> curl_handle yq = 0)"
proof -
  from a x nc obtain sa sb xb sc where
    u: "abort_unlink g s = Inr sa" and r: "abort_remove_handle g sa = Inr sb"
    and xb: "heap sb g = Some xb"
    and br: "(if curl_handle xb \<noteq> 0 \<and> queue_next xb \<noteq> 0 then abort_promote g sb else abort_release g sb) = Inr sc"
    and fr: "xfree g sc = Inr s'"
    by (rule fetch_abort_steps)
  from abort_unlink_frame[OF u] have ca: "ctl sa = ctl s"
    and va: "\<forall>b. map_option qview (heap sa b) = map_option qview (heap s b)" by simp_all
  note ha = abort_unlink_hh[OF u]
  have pa: "\<And>b. map_option pview (heap sa b) = map_option pview (heap s b)"
    using va ha by (intro pview_from) auto
  from qview_some[OF va[rule_format] x] obtain xa where xa: "heap sa g = Some xa" "qview xa = qview x"
    by blast
  note rb = abort_remove_handle_eng[OF r xa(1)]
  from rb xb xa have xbe: "xb = xa" by simp
  have hx: "curl_handle xb = h" "queue_next xb = q" using xbe xa(2) by (simp_all add: qview_def h_def q_def)
  have ia: "sched_inv sa" using va ca i by (intro sched_inv_qview[of sa s]) (simp_all add: ctl_def)
  have ib: "sched_inv sb" using rb ia by (intro sched_inv_qview[of sb sa]) simp_all
  have pb: "\<And>b. map_option pview (heap sb b) = map_option pview (heap s b)" using pa rb by simp
  from xfreeD[OF fr] have s': "heap s' = (heap sc)(g := None)" "next_ptr s' = next_ptr sc"
    "trace s' = trace sc @ [Free g]" "curl_multi s' = curl_multi sc" "curl_private s' = curl_private sc"
    "curl_failed s' = curl_failed sc" by auto
  have eb: "curl_multi sb = (if h = 0 then curl_multi s else remove1 h (curl_multi s))"
    "curl_failed sb = (if h = 0 then curl_failed s else removeAll h (curl_failed s))"
    "curl_private sb = curl_private s" "next_ptr sb = next_ptr s"
    "h \<noteq> 0 \<longrightarrow> h \<in> set (curl_multi s)"
    using rb ca hx xbe by (auto simp: ctl_def split: if_splits)
  have evb: "events (trace sb) = events (trace s)"
    using abort_remove_handle_events[OF r] ca by (simp add: ctl_def)
  have qg: "pr \<longrightarrow> q \<noteq> g \<and> (\<exists>yq. heap s q = Some yq \<and> curl_handle yq = 0)"
  proof
    assume p: pr
    then have h0: "curl_handle x \<noteq> 0" and q0: "queue_next x \<noteq> 0" by (simp_all add: pr_def h_def q_def)
    from head_not_successor[OF i x h0 x] have "q \<noteq> g" by (simp add: q_def)
    moreover from sched_inv_linkD[OF i x q0] obtain yq where yq: "heap s q = Some yq" "queue_prev yq = g"
      by (auto simp: q_def)
    moreover have "curl_handle yq = 0" using sched_inv_I1D[OF i yq(1)] yq(2) live_nonnull[OF i x] by simp
    ultimately show "q \<noteq> g \<and> (\<exists>yq. heap s q = Some yq \<and> curl_handle yq = 0)" by auto
  qed
  show "pr \<longrightarrow> q \<noteq> g \<and> (\<exists>yq. heap s q = Some yq \<and> curl_handle yq = 0)" by (rule qg)
  show "h \<noteq> 0 \<longrightarrow> h \<in> set (curl_multi s)" by (rule eb(5))
  show "next_ptr s' = next_ptr s \<and> events (trace s') = events (trace s) \<and>
        (\<forall>b. map_option pview (heap s' b) =
          (if b = g then None
           else if pr \<and> b = q then map_option (\<lambda>y. (h, in_callback y, had_headers y)) (heap s b)
           else map_option pview (heap s b))) \<and>
        curl_multi s' = (if h = 0 then curl_multi s else if q = 0 then remove1 h (curl_multi s)
                      else remove1 h (curl_multi s) @ [h]) \<and>
        curl_private s' = (if pr then (curl_private s)(h := q) else curl_private s) \<and>
        curl_failed s' = (if h = 0 then curl_failed s else removeAll h (curl_failed s))"
  proof (cases pr)
      case True
      with br hx have p: "abort_promote g sb = Inr sc" by (simp add: pr_def)
      from True qg have qng: "queue_next xb \<noteq> g" using hx by simp
      note e = abort_promote_eng[OF p xb qng]
      note v = abort_promote_qview[OF p xb refl qng]
      note hh = abort_promote_hh[OF p]
      have pv: "\<And>b. map_option pview (heap sc b) =
          (if b = q then map_option (\<lambda>y. (h, in_callback y, had_headers y)) (heap s b)
           else map_option pview (heap s b))"
      proof -
        fix b
        from v hx have vb: "map_option qview (heap sc b) =
          (if b = q then map_option (\<lambda>y. (h, 0, queue_next y, in_callback y)) (heap sb q)
           else map_option qview (heap sb b))" by simp
        from hh have hb: "map_option had_headers (heap sc b) = map_option had_headers (heap sb b)" by simp
        from pb[of b] have pbb: "map_option pview (heap sb b) = map_option pview (heap s b)" .
        show "map_option pview (heap sc b) =
          (if b = q then map_option (\<lambda>y. (h, in_callback y, had_headers y)) (heap s b)
           else map_option pview (heap s b))"
          using vb hb pbb
          by (cases "heap sc b"; cases "heap sb b"; cases "heap s b")
             (auto simp: qview_def pview_def split: if_splits)
      qed
      from True have hq: "h \<noteq> 0" "q \<noteq> 0" by (simp_all add: pr_def)
      show "next_ptr s' = next_ptr s \<and> events (trace s') = events (trace s) \<and>
        (\<forall>b. map_option pview (heap s' b) =
          (if b = g then None
           else if pr \<and> b = q then map_option (\<lambda>y. (h, in_callback y, had_headers y)) (heap s b)
           else map_option pview (heap s b))) \<and>
        curl_multi s' = (if h = 0 then curl_multi s else if q = 0 then remove1 h (curl_multi s)
                      else remove1 h (curl_multi s) @ [h]) \<and>
        curl_private s' = (if pr then (curl_private s)(h := q) else curl_private s) \<and>
        curl_failed s' = (if h = 0 then curl_failed s else removeAll h (curl_failed s))"
        using s' v e eb evb abort_promote_events[OF p] pv True hq hx by simp
    next
      case False
      with br hx have p: "abort_release g sb = Inr sc" by (auto simp: pr_def split: if_splits)
      note e = abort_release_eng[OF p]
      from abort_release_qview[OF p xb] have n: "next_ptr sc = next_ptr sb" by simp
      note hh = abort_release_hh[OF p]
      have pv: "\<And>b. map_option pview (heap sc b) = map_option pview (heap s b)"
      proof -
        fix b
        from abort_release_qview[OF p xb] have vb: "map_option qview (heap sc b) =
          map_option (\<lambda>y. (curl_handle y,
         (if b = queue_next xb \<and> queue_next xb \<noteq> 0 then queue_prev xb else queue_prev y),
         (if b = queue_prev xb \<and> queue_prev xb \<noteq> 0 then queue_next xb else queue_next y),
         in_callback y)) (heap sb b)" by blast
        from hh have hb: "map_option had_headers (heap sc b) = map_option had_headers (heap sb b)" by simp
        from pb[of b] have pbb: "map_option pview (heap sb b) = map_option pview (heap s b)" .
        show "map_option pview (heap sc b) = map_option pview (heap s b)"
          using vb hb pbb
          by (cases "heap sc b"; cases "heap sb b"; cases "heap s b")
             (auto simp: qview_def pview_def split: if_splits)
      qed
      from False have hq: "h = 0 \<or> q = 0" by (simp add: pr_def)
      show "next_ptr s' = next_ptr s \<and> events (trace s') = events (trace s) \<and>
        (\<forall>b. map_option pview (heap s' b) =
          (if b = g then None
           else if pr \<and> b = q then map_option (\<lambda>y. (h, in_callback y, had_headers y)) (heap s b)
           else map_option pview (heap s b))) \<and>
        curl_multi s' = (if h = 0 then curl_multi s else if q = 0 then remove1 h (curl_multi s)
                      else remove1 h (curl_multi s) @ [h]) \<and>
        curl_private s' = (if pr then (curl_private s)(h := q) else curl_private s) \<and>
        curl_failed s' = (if h = 0 then curl_failed s else removeAll h (curl_failed s))"
        using s' n e eb evb abort_release_events[OF p] pv False hq by auto
  qed
qed

lemma proto_inv_schedD: "proto_inv z c s \<Longrightarrow> sched_inv s"
  unfolding proto_inv_def by (elim conjE)

lemma proto_inv_distinctD: "proto_inv z c s \<Longrightarrow> distinct (curl_multi s) \<and> 0 \<notin> set (curl_multi s)"
  unfolding proto_inv_def by (elim conjE, intro conjI)

lemma proto_inv_ownerD:
  assumes "proto_inv z c s" and "h \<in> set (curl_multi s)"
  shows "\<exists>x. heap s (curl_private s h) = Some x \<and> curl_handle x = h"
proof -
  from assms(1) have "\<forall>h \<in> set (curl_multi s). \<exists>x. heap s (curl_private s h) = Some x \<and> curl_handle x = h"
    unfolding proto_inv_def by (elim conjE)
  with assms(2) show ?thesis by blast
qed

lemma proto_inv_freshD:
  assumes "proto_inv z c s" and "f = 0 \<or> next_ptr s \<le> f"
  shows "evs_of f (trace s) = []"
proof -
  from assms(1) have "\<forall>f. f = 0 \<or> next_ptr s \<le> f \<longrightarrow> evs_of f (trace s) = []"
    unfolding proto_inv_def by (elim conjE)
  with assms(2) show ?thesis by blast
qed

lemma proto_inv_liveD:
  assumes "proto_inv z c s" and "heap s f = Some x" and "f \<noteq> c"
  shows "\<not> in_callback x \<and> (\<not> had_headers x \<or> curl_handle x = 0 \<longrightarrow> evs_of f (trace s) = []) \<and>
     (z \<and> redirected f (trace s) \<longrightarrow>
        (\<forall>h \<in> set (curl_multi s). curl_private s h = f \<longrightarrow> h \<in> set (curl_failed s)))"
proof -
  from assms(1) have "\<forall>f x. heap s f = Some x \<longrightarrow> f \<noteq> c \<longrightarrow>
        \<not> in_callback x \<and>
        (\<not> had_headers x \<or> curl_handle x = 0 \<longrightarrow> evs_of f (trace s) = []) \<and>
        (z \<and> redirected f (trace s) \<longrightarrow>
           (\<forall>h \<in> set (curl_multi s). curl_private s h = f \<longrightarrow> h \<in> set (curl_failed s)))"
    unfolding proto_inv_def by (elim conjE)
  from this[rule_format, OF assms(2,3)] show ?thesis .
qed

lemma proto_inv_onceD:
  assumes "proto_inv z c s" and "f \<noteq> c" and "z" and "redirected f (trace s)"
  shows "length (evs_of f (trace s)) = 1"
proof -
  from assms(1) have "\<forall>f. f \<noteq> c \<longrightarrow> z \<and> redirected f (trace s) \<longrightarrow> length (evs_of f (trace s)) = 1"
    unfolding proto_inv_def by (elim conjE)
  with assms(2,3,4) show ?thesis by blast
qed

lemma proto_invI:
  assumes a1: "sched_inv s" and a2: "distinct (curl_multi s)" and a3: "0 \<notin> set (curl_multi s)"
    and a4: "\<And>h. h \<in> set (curl_multi s) \<Longrightarrow> \<exists>x. heap s (curl_private s h) = Some x \<and> curl_handle x = h"
    and a5: "\<And>f. f = 0 \<or> next_ptr s \<le> f \<Longrightarrow> evs_of f (trace s) = []"
    and a6: "\<And>f x. heap s f = Some x \<Longrightarrow> f \<noteq> c \<Longrightarrow> \<not> in_callback x"
    and a7: "\<And>f x. heap s f = Some x \<Longrightarrow> f \<noteq> c \<Longrightarrow> \<not> had_headers x \<or> curl_handle x = 0 \<Longrightarrow>
                evs_of f (trace s) = []"
    and a8: "\<And>f x h. heap s f = Some x \<Longrightarrow> f \<noteq> c \<Longrightarrow> z \<Longrightarrow> redirected f (trace s) \<Longrightarrow>
       h \<in> set (curl_multi s) \<Longrightarrow> curl_private s h = f \<Longrightarrow> h \<in> set (curl_failed s)"
    and a9: "\<And>f. f \<noteq> c \<Longrightarrow> z \<Longrightarrow> redirected f (trace s) \<Longrightarrow> length (evs_of f (trace s)) = 1"
  shows "proto_inv z c s"
  unfolding proto_inv_def
proof (intro conjI)
  show "sched_inv s" "distinct (curl_multi s)" "0 \<notin> set (curl_multi s)" by fact+
  show "\<forall>h \<in> set (curl_multi s). \<exists>x. heap s (curl_private s h) = Some x \<and> curl_handle x = h"
    using a4 by blast
  show "\<forall>f. f = 0 \<or> next_ptr s \<le> f \<longrightarrow> evs_of f (trace s) = []" using a5 by blast
  show "\<forall>f x. heap s f = Some x \<longrightarrow> f \<noteq> c \<longrightarrow>
        \<not> in_callback x \<and>
        (\<not> had_headers x \<or> curl_handle x = 0 \<longrightarrow> evs_of f (trace s) = []) \<and>
        (z \<and> redirected f (trace s) \<longrightarrow>
           (\<forall>h \<in> set (curl_multi s). curl_private s h = f \<longrightarrow> h \<in> set (curl_failed s)))"
  proof (intro allI impI conjI ballI)
    fix f x assume l: "heap s f = Some x" "f \<noteq> c"
    show "\<not> in_callback x" using a6[OF l] .
    { assume "\<not> had_headers x \<or> curl_handle x = 0" then show "evs_of f (trace s) = []" by (rule a7[OF l]) }
    { fix h assume "z \<and> redirected f (trace s)" "h \<in> set (curl_multi s)" "curl_private s h = f"
      then show "h \<in> set (curl_failed s)" using a8[OF l, of h] by blast }
  qed
  show "\<forall>f. f \<noteq> c \<longrightarrow> z \<and> redirected f (trace s) \<longrightarrow> length (evs_of f (trace s)) = 1"
    using a9 by blast
qed

lemma pview_some:
  "map_option pview (heap s' b) = map_option pview (heap s b) \<Longrightarrow> heap s' b = Some y' \<Longrightarrow>
   \<exists>y. heap s b = Some y \<and> pview y = pview y'"
  by (cases "heap s b") auto

lemma pview_some2:
  "map_option pview (heap s' b) = map_option pview (heap s b) \<Longrightarrow> heap s b = Some y \<Longrightarrow>
   \<exists>y'. heap s' b = Some y' \<and> pview y' = pview y"
  by (cases "heap s' b") auto

lemma redirected_nonempty: "redirected f tr \<Longrightarrow> evs_of f tr \<noteq> []"
  by (auto simp: redirected_def)

text \<open>A step that changes neither the engine nor the events nor the fields in view.\<close>

lemma proto_inv_pview:
  assumes p: "proto_inv z c s" and i: "sched_inv s'"
    and e: "curl_multi s' = curl_multi s" "curl_private s' = curl_private s"
       "set (curl_failed s) \<subseteq> set (curl_failed s')" "next_ptr s' = next_ptr s"
       "events (trace s') = events (trace s)"
    and v: "\<forall>b. map_option pview (heap s' b) = map_option pview (heap s b)"
  shows "proto_inv z c s'"
proof -
  note ev = evs_of_cong[OF e(5)] and rd = redirected_cong[OF e(5)]
  show ?thesis
  proof (rule proto_invI)
    show "sched_inv s'" by (rule i)
    show "distinct (curl_multi s')" "0 \<notin> set (curl_multi s')"
      using proto_inv_distinctD[OF p] e by simp_all
  next
    fix h assume "h \<in> set (curl_multi s')"
    with e have h: "h \<in> set (curl_multi s)" by simp
    from proto_inv_ownerD[OF p h] obtain x where x: "heap s (curl_private s h) = Some x" "curl_handle x = h"
      by blast
    from pview_some2[OF v[rule_format] x(1)] x(2) e
    show "\<exists>x. heap s' (curl_private s' h) = Some x \<and> curl_handle x = h" by (auto simp: pview_def)
  next
    fix f assume "f = 0 \<or> next_ptr s' \<le> f"
    then have "f = 0 \<or> next_ptr s \<le> f" using e by simp
    from proto_inv_freshD[OF p this] show "evs_of f (trace s') = []" using ev by simp
  next
    fix f x' assume a: "heap s' f = Some x'" "f \<noteq> c"
    from pview_some[OF v[rule_format] a(1)] obtain x where x: "heap s f = Some x" "pview x = pview x'"
      by blast
    note l = proto_inv_liveD[OF p x(1) a(2)]
    show "\<not> in_callback x'" using l x(2) by (simp add: pview_def)
    { assume "\<not> had_headers x' \<or> curl_handle x' = 0"
      then show "evs_of f (trace s') = []" using l x(2) ev by (auto simp: pview_def) }
    { fix h assume "z" "redirected f (trace s')" "h \<in> set (curl_multi s')" "curl_private s' h = f"
      then show "h \<in> set (curl_failed s')" using l rd e by auto }
  next
    fix f assume "f \<noteq> c" "z" "redirected f (trace s')"
    then show "length (evs_of f (trace s')) = 1" using proto_inv_onceD[OF p, of f] rd ev by simp
  qed
qed

lemma store_proto:
  assumes a: "store a g s = Inr s'" and g: "\<And>y. pview (g y) = pview y"
    and i: "sched_inv s'" and p: "proto_inv z c s"
  shows "proto_inv z c s'"
proof -
  from storeD[OF a] obtain x where x: "heap s a = Some x" "s' = s\<lparr>heap := (heap s)(a \<mapsto> g x)\<rparr>"
    by blast
  show ?thesis
    by (rule proto_inv_pview[OF p i]) (use x g in \<open>simp_all\<close>)
qed

lemma fetch_abort_proto:
  assumes a: "fetch_abort s g = Inr s'" and p: "proto_inv z c s"
  shows "proto_inv z c s'"
proof -
  note i = proto_inv_schedD[OF p]
  note i' = fetch_abort_inv[OF a i]
  from a obtain x where x: "heap s g = Some x"
    by (cases "heap s g") (simp_all add: fetch_abort_def load_def split: if_splits)
  show ?thesis
  proof (cases "in_callback x")
    case True
    with a x have "store g (\<lambda>y. y\<lparr>aborting := True\<rparr>) s = Inr s'"
      by (simp add: fetch_abort_def load_def split: if_splits)
    then show ?thesis by (rule store_proto) (simp_all add: pview_def i' p)
  next
    case False
    define h where "h = curl_handle x"
    define q where "q = queue_next x"
    define pr where "pr = (h \<noteq> 0 \<and> q \<noteq> 0)"
    note ef = fetch_abort_effect[OF a x False i, folded h_def q_def, folded pr_def]
    from ef(1) have np: "next_ptr s' = next_ptr s" and ev: "events (trace s') = events (trace s)"
      and hv: "\<And>b. map_option pview (heap s' b) = (if b = g then None
               else if pr \<and> b = q then map_option (\<lambda>y. (h, in_callback y, had_headers y)) (heap s b)
               else map_option pview (heap s b))"
      and mu: "curl_multi s' = (if h = 0 then curl_multi s else if q = 0 then remove1 h (curl_multi s) else remove1 h (curl_multi s) @ [h])"
      and pv: "curl_private s' = (if pr then (curl_private s)(h := q) else curl_private s)"
      and fa: "curl_failed s' = (if h = 0 then curl_failed s else removeAll h (curl_failed s))"
      by blast+
    note hm = ef(2) and sq = ef(3)
    note d = proto_inv_distinctD[OF p]
    note evc = evs_of_cong[OF ev] and rdc = redirected_cong[OF ev]
    have mem: "\<And>k. k \<in> set (curl_multi s') \<Longrightarrow> k \<noteq> h \<Longrightarrow> k \<in> set (curl_multi s)"
      using mu by (auto split: if_splits dest: notin_set_remove1)
    have mem2: "\<And>k. k \<in> set (curl_multi s') \<Longrightarrow> k = h \<Longrightarrow> pr"
      using mu d by (auto simp: pr_def split: if_splits)
    have other: "\<And>b y'. heap s' b = Some y' \<Longrightarrow> \<not> (pr \<and> b = q) \<Longrightarrow>
                   b \<noteq> g \<and> (\<exists>y. heap s b = Some y \<and> pview y = pview y')"
    proof -
      fix b y' assume b: "heap s' b = Some y'" "\<not> (pr \<and> b = q)"
      from hv[of b] b have ng: "b \<noteq> g" by (auto split: if_splits)
      with hv[of b] b(2) have "map_option pview (heap s' b) = map_option pview (heap s b)" by auto
      from pview_some[OF this b(1)] ng show "b \<noteq> g \<and> (\<exists>y. heap s b = Some y \<and> pview y = pview y')"
        by blast
    qed
    have succ: "\<And>y'. heap s' q = Some y' \<Longrightarrow> pr \<Longrightarrow>
                   \<exists>y. heap s q = Some y \<and> curl_handle y = 0 \<and> curl_handle y' = h \<and>
                       in_callback y' = in_callback y \<and> had_headers y' = had_headers y"
    proof -
      fix y' assume b: "heap s' q = Some y'" "pr"
      from sq b obtain yq where yq: "q \<noteq> g" "heap s q = Some yq" "curl_handle yq = 0" by blast
      with hv[of q] b show "\<exists>y. heap s q = Some y \<and> curl_handle y = 0 \<and> curl_handle y' = h \<and>
                       in_callback y' = in_callback y \<and> had_headers y' = had_headers y"
        by (auto simp: pview_def)
    qed
    show ?thesis
    proof (rule proto_invI)
      show "sched_inv s'" by (rule i')
      show "distinct (curl_multi s')" using mu d by (auto split: if_splits)
      show "0 \<notin> set (curl_multi s')" using mu d by (auto split: if_splits dest: notin_set_remove1)
    next
      fix k assume k: "k \<in> set (curl_multi s')"
      show "\<exists>x. heap s' (curl_private s' k) = Some x \<and> curl_handle x = k"
      proof (cases "k = h")
        case True
        from mem2[OF k True] have pr: pr .
        from sq pr obtain yq where yq: "q \<noteq> g" "heap s q = Some yq" by blast
        with hv[of q] pr obtain y' where "heap s' q = Some y'" "pview y' = (h, in_callback yq, had_headers yq)"
          by (cases "heap s' q") auto
        then show ?thesis using pv pr True by (auto simp: pview_def)
      next
        case False
        from mem[OF k False] have ks: "k \<in> set (curl_multi s)" .
        from proto_inv_ownerD[OF p ks] obtain x1 where
          x1: "heap s (curl_private s k) = Some x1" "curl_handle x1 = k" by blast
        have k0: "k \<noteq> 0" using ks d by (cases "k = 0") simp_all
        have ng: "curl_private s k \<noteq> g" using x1 x False h_def by auto
        have nq: "\<not> (pr \<and> curl_private s k = q)" using sq x1 k0 by auto
        from hv[of "curl_private s k"] ng nq
        have "map_option pview (heap s' (curl_private s k)) = map_option pview (heap s (curl_private s k))"
          by auto
        from pview_some2[OF this x1(1)] x1(2) pv False show ?thesis by (auto simp: pview_def)
      qed
    next
      fix f assume "f = 0 \<or> next_ptr s' \<le> f"
      then have "f = 0 \<or> next_ptr s \<le> f" using np by simp
      from proto_inv_freshD[OF p this] show "evs_of f (trace s') = []" using evc by simp
    next
      fix f x' assume a: "heap s' f = Some x'" "f \<noteq> c"
      have A: "\<not> in_callback x' \<and> (\<not> had_headers x' \<or> curl_handle x' = 0 \<longrightarrow> evs_of f (trace s') = []) \<and>
            (z \<and> redirected f (trace s') \<longrightarrow>
               (\<forall>k \<in> set (curl_multi s'). curl_private s' k = f \<longrightarrow> k \<in> set (curl_failed s')))"
      proof (cases "pr \<and> f = q")
        case True
        with succ[of x'] a obtain y where y: "heap s q = Some y" "curl_handle y = 0"
            "in_callback x' = in_callback y" "had_headers x' = had_headers y" by blast
        have "evs_of q (trace s) = []" using proto_inv_liveD[OF p y(1)] a(2) True y(2) by simp
        then have "\<not> redirected q (trace s)" using redirected_nonempty by blast
        with proto_inv_liveD[OF p y(1)] a(2) True y evc rdc show ?thesis by auto
      next
        case False
        from other[OF a(1) False] obtain y where y: "f \<noteq> g" "heap s f = Some y" "pview y = pview x'"
          by blast
        note l = proto_inv_liveD[OF p y(2) a(2)]
        have "k \<in> set (curl_failed s')"
          if r: "z" "redirected f (trace s)" and k: "k \<in> set (curl_multi s')" "curl_private s' k = f" for k
        proof (cases "k = h")
          case True
          from mem2[OF k(1) True] have pr .
          with pv True k(2) have "f = q" by simp
          with False \<open>pr\<close> show ?thesis by simp
        next
          case F: False
          from mem[OF k(1) F] have ks: "k \<in> set (curl_multi s)" .
          from pv k(2) F have "curl_private s k = f" by (auto split: if_splits)
          with l r ks have "k \<in> set (curl_failed s)" by blast
          with fa F show ?thesis by auto
        qed
        with l y(3) evc rdc show ?thesis by (auto simp: pview_def)
      qed
      show "\<not> in_callback x'" using A by blast
      { assume "\<not> had_headers x' \<or> curl_handle x' = 0" then show "evs_of f (trace s') = []" using A by blast }
      { fix k assume "z" "redirected f (trace s')" "k \<in> set (curl_multi s')" "curl_private s' k = f"
        then show "k \<in> set (curl_failed s')" using A by blast }
    next
      fix f assume "f \<noteq> c" "z" "redirected f (trace s')"
      then show "length (evs_of f (trace s')) = 1" using proto_inv_onceD[OF p, of f] rdc evc by simp
    qed
  qed
qed

lemma start_active_effect:
  "start_active s nf = Inr (g, s') \<Longrightarrow> heap s nf = Some x \<Longrightarrow>
   g = nf \<and> next_ptr s' = next_ptr s \<and> curl_failed s' = curl_failed s \<and>
   next_handle s \<noteq> 0 \<and> next_handle s \<notin> set (curl_multi s) \<and>
   curl_multi s' = curl_multi s @ [next_handle s] \<and>
   curl_private s' = (curl_private s)(next_handle s := nf) \<and>
   (\<forall>b. map_option pview (heap s' b) =
      (if b = nf then Some (next_handle s, in_callback x, had_headers x)
       else map_option pview (heap s b)))"
  unfolding start_active_def Let_def
  by (elim bndE) (auto split: if_splits elim!: bndE dest!: storeD multi_addD
        simp: emit_def set_private_def pview_def pview_def[abs_def])

lemma fetch_start_effect:
  assumes a: "fetch_start E s u r cb pp o2 = Inr (g, s')"
  shows "\<exists>h. g = next_ptr s \<and> next_ptr s' = Suc (next_ptr s) \<and> curl_failed s' = curl_failed s \<and>
     (\<forall>b. map_option pview (heap s' b) =
        (if b = g then Some (h, False, False) else map_option pview (heap s b))) \<and>
     (if h = 0 then curl_multi s' = curl_multi s \<and> curl_private s' = curl_private s
      else h \<notin> set (curl_multi s) \<and> curl_multi s' = curl_multi s @ [h] \<and>
           curl_private s' = (curl_private s)(h := g))"
proof -
  let ?nf = "next_ptr s"
  let ?N = "new_fetch E u r cb pp o2"
  let ?sA = "s\<lparr>heap := (heap s)(?nf \<mapsto> ?N), next_ptr := Suc ?nf\<rparr>"
  from fetch_start_cases[OF a] consider
    (A) "start_active ?sA ?nf = Inr (g, s')"
    | (B) hf s1 t s2 where "store ?nf (\<lambda>x. x\<lparr>curl_handle := 0\<rparr>) ?sA = Inr s1"
        "queue_end (next_ptr s1) s1 hf = Inr t"
        "store ?nf (\<lambda>x. x\<lparr>queue_prev := t\<rparr>) s1 = Inr s2"
        "store t (\<lambda>x. x\<lparr>queue_next := ?nf\<rparr>) s2 = Inr s'" "g = ?nf"
    by blast
  then show ?thesis
  proof cases
    case A
    have "heap ?sA ?nf = Some ?N" by simp
    from start_active_effect[OF A this]
    show ?thesis
      by (intro exI[of _ "next_handle s"]) (simp add: new_fetch_def)
  next
    case B
    show ?thesis
      apply (rule exI[of _ 0])
      using B
      by (auto dest!: storeD simp: pview_def new_fetch_def)
  qed
qed

lemma fetch_start_proto:
  assumes a: "fetch_start E s u r cb pp o2 = Inr (g, s')" and p: "proto_inv z c s"
  shows "proto_inv z c s'"
proof -
  note i = proto_inv_schedD[OF p]
  note i' = fetch_start_inv[OF a i]
  note ev = fetch_start_events[OF a]
  note evc = evs_of_cong[OF ev] and rdc = redirected_cong[OF ev]
  from fetch_start_effect[OF a] obtain h where g: "g = next_ptr s" and np: "next_ptr s' = Suc (next_ptr s)"
    and fa: "curl_failed s' = curl_failed s"
    and hv: "\<And>b. map_option pview (heap s' b) =
        (if b = g then Some (h, False, False) else map_option pview (heap s b))"
    and en: "if h = 0 then curl_multi s' = curl_multi s \<and> curl_private s' = curl_private s
      else h \<notin> set (curl_multi s) \<and> curl_multi s' = curl_multi s @ [h] \<and>
           curl_private s' = (curl_private s)(h := g)"
    by blast
  note d = proto_inv_distinctD[OF p]
  have gfresh: "heap s g = None" using sched_inv_freshD[OF i, of g] g by simp
  have gev: "evs_of g (trace s) = []" using proto_inv_freshD[OF p, of g] g by simp
  have gnr: "\<not> redirected g (trace s)" using gev redirected_nonempty by blast
  have old: "\<And>b y. heap s b = Some y \<Longrightarrow> b \<noteq> g \<and> (\<exists>y'. heap s' b = Some y' \<and> pview y' = pview y)"
  proof -
    fix b y assume y: "heap s b = Some y"
    with gfresh have ng: "b \<noteq> g" by auto
    with hv[of b] have "map_option pview (heap s' b) = map_option pview (heap s b)" by simp
    from pview_some2[OF this y] ng show "b \<noteq> g \<and> (\<exists>y'. heap s' b = Some y' \<and> pview y' = pview y)"
      by blast
  qed
  have new: "\<exists>y'. heap s' g = Some y' \<and> pview y' = (h, False, False)"
    using hv[of g] by (cases "heap s' g") auto
  have other: "\<And>b y'. heap s' b = Some y' \<Longrightarrow> b \<noteq> g \<Longrightarrow> \<exists>y. heap s b = Some y \<and> pview y = pview y'"
  proof -
    fix b y' assume b: "heap s' b = Some y'" "b \<noteq> g"
    with hv[of b] have "map_option pview (heap s' b) = map_option pview (heap s b)" by simp
    from pview_some[OF this b(1)] show "\<exists>y. heap s b = Some y \<and> pview y = pview y'" .
  qed
  show ?thesis
  proof (rule proto_invI)
    show "sched_inv s'" by (rule i')
    show "distinct (curl_multi s')" using en d by (auto split: if_splits)
    show "0 \<notin> set (curl_multi s')" using en d by (auto split: if_splits)
  next
    fix k assume k: "k \<in> set (curl_multi s')"
    show "\<exists>x. heap s' (curl_private s' k) = Some x \<and> curl_handle x = k"
    proof (cases "h \<noteq> 0 \<and> k = h")
      case True
      with en have "curl_private s' k = g" by simp
      with new True show ?thesis by (auto simp: pview_def)
    next
      case False
      with en k have ks: "k \<in> set (curl_multi s)" and pk: "curl_private s' k = curl_private s k"
        by (auto split: if_splits)
      from proto_inv_ownerD[OF p ks] obtain x1 where
        x1: "heap s (curl_private s k) = Some x1" "curl_handle x1 = k" by blast
      from old[OF x1(1)] x1(2) pk show ?thesis by (auto simp: pview_def)
    qed
  next
    fix f assume "f = 0 \<or> next_ptr s' \<le> f"
    then have "f = 0 \<or> next_ptr s \<le> f" using np by auto
    from proto_inv_freshD[OF p this] show "evs_of f (trace s') = []" using evc by simp
  next
    fix f x' assume a: "heap s' f = Some x'" "f \<noteq> c"
    have A: "\<not> in_callback x' \<and> (\<not> had_headers x' \<or> curl_handle x' = 0 \<longrightarrow> evs_of f (trace s') = []) \<and>
          (z \<and> redirected f (trace s') \<longrightarrow>
             (\<forall>k \<in> set (curl_multi s'). curl_private s' k = f \<longrightarrow> k \<in> set (curl_failed s')))"
    proof (cases "f = g")
      case True
      with new a have "pview x' = (h, False, False)" by auto
      with True gev gnr evc rdc show ?thesis by (simp add: pview_def)
    next
      case False
      from other[OF a(1) False] obtain y where y: "heap s f = Some y" "pview y = pview x'" by blast
      note l = proto_inv_liveD[OF p y(1) a(2)]
      have "k \<in> set (curl_failed s')"
        if r: "z" "redirected f (trace s)" and k: "k \<in> set (curl_multi s')" "curl_private s' k = f" for k
      proof (cases "h \<noteq> 0 \<and> k = h")
        case True
        with en k(2) False show ?thesis by simp
      next
        case F: False
        with en k have "k \<in> set (curl_multi s)" "curl_private s k = f" by (auto split: if_splits)
        with l r fa show ?thesis by simp
      qed
      with l y(2) evc rdc show ?thesis by (auto simp: pview_def)
    qed
    show "\<not> in_callback x'" using A by blast
    { assume "\<not> had_headers x' \<or> curl_handle x' = 0" then show "evs_of f (trace s') = []" using A by blast }
    { fix k assume "z" "redirected f (trace s')" "k \<in> set (curl_multi s')" "curl_private s' k = f"
      then show "k \<in> set (curl_failed s')" using A by blast }
  next
    fix f assume "f \<noteq> c" "z" "redirected f (trace s')"
    then show "length (evs_of f (trace s')) = 1" using proto_inv_onceD[OF p, of f] rdc evc by simp
  qed
qed

lemma call_stable_proto: "call_stable E (proto_inv z c)"
  unfolding call_stable_def
  by (auto dest: fetch_abort_proto fetch_start_proto)

lemma evs_of_snoc_other: "g \<noteq> f \<Longrightarrow> evs_of f (tr @ [Ev g m pp d n]) = evs_of f tr"
  by (simp add: evs_of_def)

lemma evs_of_snoc_self: "evs_of f (tr @ [Ev f m pp d n]) = evs_of f tr @ [Ev f m pp d n]"
  by (simp add: evs_of_def)

lemma redirected_snoc_other: "g \<noteq> f \<Longrightarrow> redirected f (tr @ [Ev g m pp d n]) = redirected f tr"
  by (simp add: redirected_def evs_of_def)



lemma emit_proto:
  assumes p: "proto_inv z c s" and c: "c \<noteq> 0" "c < next_ptr s"
  shows "proto_inv z c (emit (Ev c m pp d n) s)"
proof -
  let ?s = "emit (Ev c m pp d n) s"
  have tr: "trace ?s = trace s @ [Ev c m pp d n]" and h: "heap ?s = heap s"
    and o: "curl_multi ?s = curl_multi s" "curl_private ?s = curl_private s"
       "curl_failed ?s = curl_failed s" "next_ptr ?s = next_ptr s"
    by (simp_all add: emit_def)
  have ev: "\<And>f. f \<noteq> c \<Longrightarrow> evs_of f (trace ?s) = evs_of f (trace s)"
    unfolding tr by (rule evs_of_snoc_other) simp
  have rd: "\<And>f. f \<noteq> c \<Longrightarrow> redirected f (trace ?s) = redirected f (trace s)"
    unfolding tr by (rule redirected_snoc_other) simp
  show ?thesis
  proof (rule proto_invI)
    show "sched_inv ?s" using stable_emit[OF stable_sched_inv proto_inv_schedD[OF p]] .
    show "distinct (curl_multi ?s)" "0 \<notin> set (curl_multi ?s)"
      using proto_inv_distinctD[OF p] o by simp_all
    fix k assume "k \<in> set (curl_multi ?s)"
    then have "k \<in> set (curl_multi s)" using o by simp
    from proto_inv_ownerD[OF p this] show "\<exists>x. heap ?s (curl_private ?s k) = Some x \<and> curl_handle x = k"
      using h o by simp
  next
    fix f assume f: "f = 0 \<or> next_ptr ?s \<le> f"
    then have "f \<noteq> c" using c o by (cases "f = c") simp_all
    from ev[OF this] proto_inv_freshD[OF p, of f] f o show "evs_of f (trace ?s) = []" by simp
  next
    fix f x assume l: "heap ?s f = Some x" "f \<noteq> c"
    then have lv: "heap s f = Some x" using h by simp
    note d = proto_inv_liveD[OF p lv l(2)]
    show "\<not> in_callback x" using d by blast
    { assume "\<not> had_headers x \<or> curl_handle x = 0"
      then show "evs_of f (trace ?s) = []" using d ev[OF l(2)] by auto }
    { fix k assume "z" "redirected f (trace ?s)" "k \<in> set (curl_multi ?s)" "curl_private ?s k = f"
      then show "k \<in> set (curl_failed ?s)" using d rd[OF l(2)] o by auto }
  next
    fix f assume "f \<noteq> c" "z" "redirected f (trace ?s)"
    then show "length (evs_of f (trace ?s)) = 1" using proto_inv_onceD[OF p, of f] ev[of f] rd[of f] by simp
  qed
qed

lemma invoke_proto:
  assumes a: "invoke E c cb m pp d n s = Inr s'" and p: "proto_inv z c s" and c: "c \<noteq> 0" "c < next_ptr s"
  shows "proto_inv z c s'"
proof -
  from a have "do_calls E (cb m pp d n) (emit (Ev c m pp d n) s) = Inr s'" by (simp add: invoke_def)
  from cs_do_calls[OF this call_stable_proto emit_proto[OF p c]] show ?thesis .
qed





















lemma redirected_append:
  "redirected f (a @ b) = (redirected f a \<or> (\<exists>e \<in> set (evs_of f b). is_redirect e))"
  by (auto simp: redirected_def)




















end
